theory Spec2Isabelle
  imports Main "HOL-Library.Word"
begin

section \<open>Machine types of \<^verbatim>\<open>prefetch.c\<close>\<close>

text \<open>
  \<^verbatim>\<open>uint64_t\<close> is a 64-bit word whose arithmetic wraps around. A C \<^verbatim>\<open>int\<close> is a
  32-bit word read in two's complement: it is compared with the signed orders \<open><s\<close> and
  \<open>\<le>s\<close>. A \<^verbatim>\<open>long\<close> is a 64-bit word read in two's complement. C leaves the overflow
  of a signed addition undefined; the model takes the two's-complement result that the
  machine's addition gives, so a sum that leaves the range of its type wraps around.
\<close>

type_synonym u64 = "64 word"
type_synonym cint = "32 word"
type_synonym clong = "64 word"

text \<open>
  C does not check array bounds. The model does: an access outside the allocated
  elements of an array is the fault \<open>OutOfBounds\<close>, and the function stops there.
\<close>

datatype error = OutOfBounds

definition array_get :: "'a list \<Rightarrow> cint \<Rightarrow> error + 'a" where
  "array_get xs i =
     (if 0 \<le>s i \<and> sint i < int (length xs) then Inr (xs ! nat (sint i)) else Inl OutOfBounds)"

definition array_set :: "'a list \<Rightarrow> cint \<Rightarrow> 'a \<Rightarrow> error + 'a list" where
  "array_set xs i v =
     (if 0 \<le>s i \<and> sint i < int (length xs) then Inr (xs[nat (sint i) := v]) else Inl OutOfBounds)"

section \<open>Ring navigation\<close>

text \<open>
  \<^verbatim>\<open>int inc_ring(int i, int n) { int next = i + 1; return next >= n ? 0 : next; }\<close>
\<close>

definition inc_ring :: "cint \<Rightarrow> cint \<Rightarrow> cint" where
  "inc_ring i n = (let next = i + 1 in if n \<le>s next then 0 else next)"

text \<open>
  \<^verbatim>\<open>int dec_ring(int i, int n) { int next = i + n - 1; return next >= n ? next - n : next; }\<close>
\<close>

definition dec_ring :: "cint \<Rightarrow> cint \<Rightarrow> cint" where
  "dec_ring i n = (let next = i + n - 1 in if n \<le>s next then next - n else next)"

section \<open>Reduction by repeated subtraction\<close>

text \<open>
  \<^verbatim>\<open>while (index >= len) { index -= len; }\<close>
  The loop does not end when \<open>len = 0\<close>; not returning is the value \<open>None\<close>.
\<close>

partial_function (option) reduce :: "u64 \<Rightarrow> u64 \<Rightarrow> u64 option" where
  "reduce index len = (if len \<le> index then reduce (index - len) len else Some index)"

section \<open>The operations\<close>

text \<open>
  \<^verbatim>\<open>typedef void(*op_t)(long *, uint64_t, uint64_t);\<close>
  An operation takes the data buffer, its length and an index, and leaves the buffer as
  it updated it, or faults. The traversal hands the buffer to the operations and never
  reads it, so it is written for any type \<open>'d\<close> of buffers.
\<close>

type_synonym 'd op_t = "'d \<Rightarrow> u64 \<Rightarrow> u64 \<Rightarrow> error + 'd"

text \<open>\<^verbatim>\<open>__builtin_prefetch(&data[index]);\<close> is a hint: it changes no memory and never faults.\<close>

definition prefetch :: "clong list op_t" where
  "prefetch data len index = Inr data"

text \<open>\<^verbatim>\<open>data[index]++;\<close>\<close>

definition increment :: "clong list op_t" where
  "increment data len index =
     (if unat index < length data
      then Inr (data[unat index := data ! unat index + 1])
      else Inl OutOfBounds)"

text \<open>\<^verbatim>\<open>return;\<close>\<close>

definition nop :: "clong list op_t" where
  "nop data len index = Inr data"

text \<open>
  To observe which indices the traversal hands to its operations, and in which order,
  it is run on a log of calls with two operations that append their index to it.
\<close>

datatype call = Lowest u64 | Highest u64

fun call_index :: "call \<Rightarrow> u64" where
  "call_index (Lowest x) = x"
| "call_index (Highest x) = x"

fun is_lowest :: "call \<Rightarrow> bool" where
  "is_lowest (Lowest x) = True"
| "is_lowest (Highest x) = False"

definition log_call :: "(u64 \<Rightarrow> call) \<Rightarrow> call list op_t" where
  "log_call c tr len index = Inr (tr @ [c index])"

section \<open>The traversal\<close>

text \<open>
  The seeding loop:
  \<^verbatim>\<open>
  for (i_buf = 0, index = 1, follow = 0; i_buf < n; i_buf++) {
    buf[i_buf] = index;
    temp = index;
    index += follow;
    follow = temp;
    while (index >= len) { index -= len; }
  }
  \<close>
\<close>

function seed_loop :: "u64 list \<Rightarrow> cint \<Rightarrow> u64 \<Rightarrow> u64 \<Rightarrow> u64 \<Rightarrow> cint \<Rightarrow> (error + u64 list) option" where
  "seed_loop buf i_buf index follow len n =
     (if i_buf <s n then
        (case array_set buf i_buf index of
           Inl e \<Rightarrow> Some (Inl e)
         | Inr buf' \<Rightarrow>
             (case reduce (index + follow) len of
                None \<Rightarrow> None
              | Some index' \<Rightarrow> seed_loop buf' (i_buf + 1) index' index len n))
      else Some (Inr buf))"
  by pat_completeness auto
termination
  apply (relation "measure (\<lambda>(buf, i_buf, index, follow, len, n). nat (sint n - sint i_buf))")
   apply simp
  subgoal for buf i_buf index follow len n
    using sint_lt [of n] sint_ge [of i_buf]
    by (simp add: word_sless_alt sint_word_ariths signed_take_bit_int_eq_self)
  done

declare seed_loop.simps [simp del]

text \<open>
  The body of the main loop, from the current ring and ring position to the next:
  \<^verbatim>\<open>
  op_lowest(data, len, buf[i_buf]);
  int prev = dec_ring(i_buf, n);
  buf[i_buf] = buf[prev] + buf[dec_ring(prev, n)];
  while (buf[i_buf] >= len) { buf[i_buf] -= len; }
  op_highest(data, len, buf[i_buf]);
  i_buf = inc_ring(i_buf, n);
  \<close>
  The source stores the sum into \<open>buf[i_buf]\<close> and reduces it in place; here the sum is
  reduced and the result stored, which gives the same ring. A fault is returned with the
  data buffer as it is at that moment.
\<close>

definition iteration ::
  "'d \<Rightarrow> u64 list \<Rightarrow> cint \<Rightarrow> u64 \<Rightarrow> 'd op_t \<Rightarrow> 'd op_t \<Rightarrow> cint
     \<Rightarrow> (error \<times> 'd + 'd \<times> u64 list \<times> cint) option" where
  "iteration data buf i_buf len op_highest op_lowest n =
     (case array_get buf i_buf of
        Inl e \<Rightarrow> Some (Inl (e, data))
      | Inr lowest \<Rightarrow>
     (case op_lowest data len lowest of
        Inl e \<Rightarrow> Some (Inl (e, data))
      | Inr data1 \<Rightarrow>
     (let prev = dec_ring i_buf n in
      case array_get buf prev of
        Inl e \<Rightarrow> Some (Inl (e, data1))
      | Inr a \<Rightarrow>
     (case array_get buf (dec_ring prev n) of
        Inl e \<Rightarrow> Some (Inl (e, data1))
      | Inr b \<Rightarrow>
     (case reduce (a + b) len of
        None \<Rightarrow> None
      | Some highest \<Rightarrow>
     (case array_set buf i_buf highest of
        Inl e \<Rightarrow> Some (Inl (e, data1))
      | Inr buf' \<Rightarrow>
     (case op_highest data1 len highest of
        Inl e \<Rightarrow> Some (Inl (e, data1))
      | Inr data2 \<Rightarrow> Some (Inr (data2, buf', inc_ring i_buf n)))))))))"

text \<open>
  The main loop, \<^verbatim>\<open>for (i = 0, i_buf = 0; i < iters; i++) { ... }\<close>, from any \<open>i\<close>. It
  returns the data buffer together with the ring and the ring position it ends with.
\<close>

function main_loop ::
  "'d \<Rightarrow> u64 list \<Rightarrow> cint \<Rightarrow> cint \<Rightarrow> u64 \<Rightarrow> cint \<Rightarrow> 'd op_t \<Rightarrow> 'd op_t \<Rightarrow> cint
     \<Rightarrow> (error \<times> 'd + 'd \<times> u64 list \<times> cint) option" where
  "main_loop data buf i_buf i len iters op_highest op_lowest n =
     (if i <s iters then
        (case iteration data buf i_buf len op_highest op_lowest n of
           None \<Rightarrow> None
         | Some (Inl f) \<Rightarrow> Some (Inl f)
         | Some (Inr (data', buf', i_buf')) \<Rightarrow>
             main_loop data' buf' i_buf' (i + 1) len iters op_highest op_lowest n)
      else Some (Inr (data, buf, i_buf)))"
  by pat_completeness auto
termination
  apply (relation "measure (\<lambda>(data, buf, i_buf, i, len, iters, op_highest, op_lowest, n).
        nat (sint iters - sint i))")
   apply simp
  subgoal for data buf i_buf i len iters
    using sint_lt [of iters] sint_ge [of i]
    by (simp add: word_sless_alt sint_word_ariths signed_take_bit_int_eq_self)
  done

declare main_loop.simps [simp del]

text \<open>
  The function up to its last statement. \<^verbatim>\<open>calloc(n, sizeof(uint64_t))\<close> is taken to
  succeed and gives \<open>n\<close> zeros (no element when \<open>n \<le> 0\<close>).
\<close>

definition traverse ::
  "'d \<Rightarrow> u64 \<Rightarrow> cint \<Rightarrow> 'd op_t \<Rightarrow> 'd op_t \<Rightarrow> cint
     \<Rightarrow> (error \<times> 'd + 'd \<times> u64 list \<times> cint) option" where
  "traverse data len iters op_highest op_lowest n =
     (case seed_loop (replicate (nat (sint n)) 0) 0 1 0 len n of
        None \<Rightarrow> None
      | Some (Inl e) \<Rightarrow> Some (Inl (e, data))
      | Some (Inr buf) \<Rightarrow> main_loop data buf 0 0 len iters op_highest op_lowest n)"

text \<open>
  \<^verbatim>\<open>void fibo_lookahead_foreach(long *data, uint64_t len, int iters,
      op_t op_highest, op_t op_lowest, int n)\<close>
  The caller sees the data buffer only.
\<close>

definition fibo_lookahead_foreach ::
  "'d \<Rightarrow> u64 \<Rightarrow> cint \<Rightarrow> 'd op_t \<Rightarrow> 'd op_t \<Rightarrow> cint \<Rightarrow> (error \<times> 'd + 'd) option" where
  "fibo_lookahead_foreach data len iters op_highest op_lowest n =
     map_option (map_sum id fst) (traverse data len iters op_highest op_lowest n)"

section \<open>Well-formed ring states\<close>

text \<open>
  A ring state is well formed when the ring has \<open>n\<close> slots, \<open>0 < n \<le> 2^30\<close>, and the ring
  position lies in \<open>[0, n)\<close>. The bound \<open>2^30\<close> is the largest ring size for which
  \<open>i + n - 1\<close> in \<open>dec_ring\<close> stays a 32-bit \<^verbatim>\<open>int\<close> at every position.
\<close>

definition ring_ok :: "cint \<Rightarrow> u64 list \<Rightarrow> cint \<Rightarrow> bool" where
  "ring_ok n buf i_buf \<longleftrightarrow>
     0 <s n \<and> sint n \<le> 2 ^ 30 \<and> length buf = nat (sint n) \<and> 0 \<le>s i_buf \<and> i_buf <s n"

section \<open>The Fibonacci numbers in the ring\<close>

fun fib :: "nat \<Rightarrow> nat" where
  "fib 0 = 0"
| "fib (Suc 0) = 1"
| "fib (Suc (Suc k)) = fib (Suc k) + fib k"

text \<open>
  After \<open>k\<close> iterations the ring holds the Fibonacci numbers \<open>fib (k + 1), \<dots>, fib (k + n)\<close>,
  as long as none of them has been reduced: the slot at the ring position holds
  \<open>fib (k + 1)\<close>, the slots after it up to the end of the ring the next ones, and the
  slots from 0 up to the ring position the ones after those.
\<close>

definition fib_ring :: "cint \<Rightarrow> u64 list \<Rightarrow> cint \<Rightarrow> nat \<Rightarrow> bool" where
  "fib_ring n buf i_buf k \<longleftrightarrow>
     (\<forall>s < nat (sint n). buf ! s = of_nat (fib (k + 1 +
        (if nat (sint i_buf) \<le> s then s - nat (sint i_buf)
         else s + nat (sint n) - nat (sint i_buf)))))"

section \<open>The ring in the order of generation\<close>

text \<open>
  The values generated so far, in the order of their generation: the seeds, then the
  values handed to \<open>op_highest\<close>, which are the values the main loop stores into the ring.
\<close>

definition generated :: "u64 list \<Rightarrow> call list \<Rightarrow> u64 list" where
  "generated seeds tr = seeds @ map call_index (filter (\<lambda>c. \<not> is_lowest c) tr)"

text \<open>The ring read from the ring position on, wrapping around at the end of the ring.\<close>

definition ring_from :: "cint \<Rightarrow> u64 list \<Rightarrow> u64 list" where
  "ring_from i_buf buf = drop (nat (sint i_buf)) buf @ take (nat (sint i_buf)) buf"

section \<open>Signed 32-bit arithmetic\<close>

lemma sint_succ_less: "i <s n \<Longrightarrow> sint (i + 1 :: cint) = sint i + 1"
proof -
  assume "i <s n"
  then have "sint i < sint n" by (simp add: word_sless_alt)
  moreover have "sint n < 2 ^ 31" using sint_lt [of n] by simp
  moreover have "- (2 ^ 31) \<le> sint i" using sint_ge [of i] by simp
  ultimately have "signed_take_bit 31 (sint i + 1) = sint i + 1"
    by (simp add: signed_take_bit_int_eq_self)
  then show ?thesis by (simp add: sint_word_ariths)
qed

lemma sint_range32: "- (2 ^ 31) \<le> sint (i :: cint) \<and> sint i < 2 ^ 31"
  using sint_ge [of i] sint_lt [of i] by simp

lemma sint_inc_ring:
  assumes "0 \<le>s i" "i <s n"
  shows "sint (inc_ring i n) = (if sint i + 1 = sint n then 0 else sint i + 1)"
proof -
  have s: "sint (i + 1) = sint i + 1" using assms(2) by (rule sint_succ_less)
  have "sint i < sint n" using assms(2) by (simp add: word_sless_alt)
  then show ?thesis
    by (auto simp: inc_ring_def Let_def word_sle_eq s)
qed

lemma sint_dec_ring:
  assumes "0 \<le>s i" "i <s n" "sint n \<le> 2 ^ 30"
  shows "sint (dec_ring i n) = (if sint i = 0 then sint n - 1 else sint i - 1)"
proof -
  have i0: "0 \<le> sint i" using assms(1) by (simp add: word_sle_eq)
  have lt: "sint i < sint n" using assms(2) by (simp add: word_sless_alt)
  have a: "sint (i + n) = sint i + sint n"
    using i0 lt assms(3) by (simp add: sint_word_ariths signed_take_bit_int_eq_self)
  have b: "sint (i + n - 1) = sint i + sint n - 1"
    using i0 lt assms(3) a by (simp add: sint_word_ariths signed_take_bit_int_eq_self)
  have c: "sint (i - 1) = sint i - 1"
    using i0 sint_range32 [of i] by (simp add: sint_word_ariths signed_take_bit_int_eq_self)
  show ?thesis
    using i0 lt by (auto simp: dec_ring_def Let_def word_sle_eq b c)
qed

section \<open>The reduction loop\<close>

lemma reduce_zero: "reduce index 0 = None"
proof -
  have "len \<noteq> 0" if "reduce index len = Some y" for len y
    by (rule reduce.raw_induct [where P = "\<lambda>_ len _. len \<noteq> 0", OF _ that])
       (auto split: if_splits)
  then show ?thesis by (cases "reduce index 0") auto
qed

lemma reduce_mod: "len \<noteq> 0 \<Longrightarrow> reduce index len = Some (index mod len)"
proof (induction "unat index" arbitrary: index rule: less_induct)
  case less
  show ?case
  proof (cases "len \<le> index")
    case True
    have pos: "0 < unat len" using less.prems by (simp add: unat_gt_0)
    have sub: "unat (index - len) = unat index - unat len"
      using True by (simp add: unat_sub)
    have "unat (index - len) < unat index"
      using True pos sub by (simp add: word_le_nat_alt)
    then have "reduce (index - len) len = Some ((index - len) mod len)"
      using less by blast
    moreover have "(index - len) mod len = index mod len"
      using True sub
      by (simp add: word_eq_iff_unsigned [where ?'a = nat] unat_mod word_le_nat_alt le_mod_geq)
    ultimately show ?thesis using True by (subst reduce.simps) simp
  next
    case False
    then have "index mod len = index"
      by (simp add: word_eq_iff_unsigned [where ?'a = nat] unat_mod word_le_nat_alt)
    with False show ?thesis by (subst reduce.simps) simp
  qed
qed

lemma reduce_eq: "reduce index len = (if len = 0 then None else Some (index mod len))"
  by (simp add: reduce_zero reduce_mod)

lemma word_mod_less_len: "len \<noteq> 0 \<Longrightarrow> (x :: u64) mod len < len"
  by (simp add: word_less_nat_alt unat_mod unat_gt_0)

section \<open>Claims about ring navigation\<close>

text \<open>
  Claim C4, as the code has it. For every ring size \<open>n\<close> with \<open>0 < n \<le> 2^30\<close> and every
  position \<open>i\<close> in \<open>[0, n)\<close>, \<open>dec_ring\<close> and \<open>inc_ring\<close> are mutual inverses:
  \<open>dec_ring (inc_ring i) = i\<close> and \<open>inc_ring (dec_ring i) = i\<close>. The bound on \<open>n\<close> keeps
  \<open>i + n - 1\<close> within a 32-bit \<^verbatim>\<open>int\<close>.
\<close>

theorem C4_ring_inverse:
  assumes "0 <s n" "sint n \<le> 2 ^ 30" "0 \<le>s i" "i <s n"
  shows "dec_ring (inc_ring i n) n = i \<and> inc_ring (dec_ring i n) n = i"
proof -
  have i0: "0 \<le> sint i" using assms(3) by (simp add: word_sle_eq)
  have lt: "sint i < sint n" using assms(4) by (simp add: word_sless_alt)
  note si = sint_inc_ring [OF assms(3,4)]
  note sd = sint_dec_ring [OF assms(3,4,2)]
  have inc: "0 \<le>s inc_ring i n" "inc_ring i n <s n"
    using i0 lt by (simp_all add: word_sle_eq word_sless_alt si)
  have dec: "0 \<le>s dec_ring i n" "dec_ring i n <s n"
    using i0 lt by (simp_all add: word_sle_eq word_sless_alt sd)
  have "sint (dec_ring (inc_ring i n) n) = sint i"
    using i0 lt by (simp add: sint_dec_ring [OF inc assms(2)] si)
  moreover have "sint (inc_ring (dec_ring i n) n) = sint i"
    using i0 lt by (simp add: sint_inc_ring [OF dec] sd)
  ultimately show ?thesis by (simp add: signed_word_eqI)
qed

text \<open>Claim C4, witness: ring size 3, position 2 (the position that wraps).\<close>

theorem C4_ring_inverse_witness:
  "0 <s (3::cint) \<and> sint (3::cint) \<le> 2 ^ 30 \<and> 0 \<le>s (2::cint) \<and> (2::cint) <s 3
     \<and> dec_ring (inc_ring 2 3) 3 = 2 \<and> inc_ring (dec_ring 2 3) 3 = 2"
  using C4_ring_inverse [of 3 2] by (simp add: word_sle_eq word_sless_alt)

text \<open>
  Claim C4, counterexample to the claim for every ring size: with ring size \<open>2^30 + 1\<close>
  and position \<open>2^30 - 1\<close>, \<open>inc_ring\<close> gives \<open>2^30\<close>, and \<open>dec_ring\<close> of it computes
  \<open>2^30 + (2^30 + 1) - 1 = 2^31\<close>, which is not an \<^verbatim>\<open>int\<close>: the result is not the position
  it started from.
\<close>

theorem C4_ring_inverse_counterexample:
  "0 <s (1073741825::cint) \<and> 0 \<le>s (1073741823::cint) \<and> (1073741823::cint) <s 1073741825
     \<and> dec_ring (inc_ring 1073741823 1073741825) 1073741825 \<noteq> 1073741823"
  by (simp add: inc_ring_def dec_ring_def word_sle_eq word_sless_alt)

section \<open>Array accesses and the seeding loop\<close>

lemma array_get_Inr:
  assumes "array_get xs i = Inr x"
  shows "x = xs ! nat (sint i)" "nat (sint i) < length xs" "x \<in> set xs"
    "array_set xs i v = Inr (xs[nat (sint i) := v])"
  using assms by (auto simp: array_get_def array_set_def word_sle_eq split: if_splits)

lemma array_get_ok:
  "0 \<le>s i \<Longrightarrow> sint i < int (length xs) \<Longrightarrow> array_get xs i = Inr (xs ! nat (sint i))"
  by (simp add: array_get_def)

lemma array_set_ok:
  "0 \<le>s i \<Longrightarrow> sint i < int (length xs) \<Longrightarrow> array_set xs i v = Inr (xs[nat (sint i) := v])"
  by (simp add: array_set_def)

lemma seed_loop_total: "len \<noteq> 0 \<Longrightarrow> seed_loop buf i_buf index follow len n \<noteq> None"
proof (induction buf i_buf index follow len n rule: seed_loop.induct)
  case (1 buf i_buf index follow len n)
  show ?case
    using 1 by (subst seed_loop.simps) (auto simp: reduce_eq split: sum.splits)
qed

lemma seed_loop_ok:
  assumes "len \<noteq> 0" "0 \<le>s i_buf" "i_buf \<le>s n" "length buf = nat (sint n)"
  shows "\<exists>buf'. seed_loop buf i_buf index follow len n = Some (Inr buf')
           \<and> length buf' = length buf
           \<and> (\<forall>j < nat (sint i_buf). buf' ! j = buf ! j)
           \<and> (i_buf <s n \<longrightarrow> buf' ! nat (sint i_buf) = index)
           \<and> ((\<forall>v \<in> set buf. v < len) \<and> index < len \<longrightarrow> (\<forall>v \<in> set buf'. v < len))"
  using assms
proof (induction buf i_buf index follow len n rule: seed_loop.induct)
  case (1 buf i_buf index follow len n)
  show ?case
  proof (cases "i_buf <s n")
    case False
    then show ?thesis by (subst seed_loop.simps) simp
  next
    case True
    let ?k = "nat (sint i_buf)"
    let ?buf = "buf[?k := index]"
    let ?index = "(index + follow) mod len"
    have i0: "0 \<le> sint i_buf" using "1.prems"(2) by (simp add: word_sle_eq)
    have lt: "sint i_buf < sint n" using True by (simp add: word_sless_alt)
    have k: "?k < length buf" using i0 lt "1.prems"(4) by simp
    have set: "array_set buf i_buf index = Inr ?buf"
      using i0 lt "1.prems"(2,4) by (simp add: array_set_ok)
    have red: "reduce (index + follow) len = Some ?index"
      using "1.prems"(1) by (simp add: reduce_eq)
    have s: "sint (i_buf + 1) = sint i_buf + 1" using True by (rule sint_succ_less)
    have p2: "0 \<le>s i_buf + 1" using i0 s by (simp add: word_sle_eq)
    have p3: "i_buf + 1 \<le>s n" using lt s by (simp add: word_sle_eq)
    have p4: "length ?buf = nat (sint n)" using "1.prems"(4) by simp
    from "1.IH" [OF True set red "1.prems"(1) p2 p3 p4]
    obtain buf' where b:
      "seed_loop ?buf (i_buf + 1) ?index index len n = Some (Inr buf')"
      "length buf' = length ?buf"
      "\<forall>j < nat (sint (i_buf + 1)). buf' ! j = ?buf ! j"
      "(\<forall>v \<in> set ?buf. v < len) \<and> ?index < len \<longrightarrow> (\<forall>v \<in> set buf'. v < len)"
      by blast
    have eq: "seed_loop buf i_buf index follow len n = Some (Inr buf')"
      using True set red b(1) by (subst seed_loop.simps) simp
    have old: "\<forall>j < ?k. buf' ! j = buf ! j"
      using b(3) s i0 by (simp add: nat_add_distrib)
    have cur: "buf' ! ?k = index"
      using b(3) s i0 k by (simp add: nat_add_distrib)
    have bound: "(\<forall>v \<in> set buf'. v < len)" if "(\<forall>v \<in> set buf. v < len) \<and> index < len"
    proof -
      have "\<forall>v \<in> set ?buf. v < len"
        using that set_update_subset_insert [of buf ?k index] by auto
      moreover have "?index < len" using "1.prems"(1) by (rule word_mod_less_len)
      ultimately show ?thesis using b(4) by blast
    qed
    show ?thesis
    proof (intro exI conjI)
      show "seed_loop buf i_buf index follow len n = Some (Inr buf')" by (rule eq)
      show "length buf' = length buf" using b(2) by simp
      show "\<forall>j < ?k. buf' ! j = buf ! j" by (rule old)
      show "i_buf <s n \<longrightarrow> buf' ! ?k = index" using cur by simp
      show "(\<forall>v \<in> set buf. v < len) \<and> index < len \<longrightarrow> (\<forall>v \<in> set buf'. v < len)"
        using bound by blast
    qed
  qed
qed

section \<open>The loop body\<close>

lemma ring_range:
  assumes "0 <s n" "sint n \<le> 2 ^ 30" "0 \<le>s i" "i <s n"
  shows "0 \<le>s inc_ring i n" "inc_ring i n <s n" "0 \<le>s dec_ring i n" "dec_ring i n <s n"
proof -
  have i0: "0 \<le> sint i" using assms(3) by (simp add: word_sle_eq)
  have lt: "sint i < sint n" using assms(4) by (simp add: word_sless_alt)
  note si = sint_inc_ring [OF assms(3,4)]
  note sd = sint_dec_ring [OF assms(3,4,2)]
  show "0 \<le>s inc_ring i n" "inc_ring i n <s n"
    using i0 lt by (simp_all add: word_sle_eq word_sless_alt si)
  show "0 \<le>s dec_ring i n" "dec_ring i n <s n"
    using i0 lt by (simp_all add: word_sle_eq word_sless_alt sd)
qed

lemma iteration_reads:
  assumes "len \<noteq> 0" "array_get buf i_buf = Inr lowest"
    and "array_get buf (dec_ring i_buf n) = Inr a"
    and "array_get buf (dec_ring (dec_ring i_buf n) n) = Inr b"
  shows "iteration data buf i_buf len op_highest op_lowest n =
    (case op_lowest data len lowest of
       Inl e \<Rightarrow> Some (Inl (e, data))
     | Inr data1 \<Rightarrow>
        (case op_highest data1 len ((a + b) mod len) of
           Inl e \<Rightarrow> Some (Inl (e, data1))
         | Inr data2 \<Rightarrow>
             Some (Inr (data2, buf[nat (sint i_buf) := (a + b) mod len], inc_ring i_buf n))))"
  using assms array_get_Inr(4) [OF assms(2)]
  by (simp add: iteration_def reduce_eq Let_def split: sum.splits)

lemma ring_ok_reads:
  assumes "ring_ok n buf i_buf"
  shows "array_get buf i_buf = Inr (buf ! nat (sint i_buf))"
    and "array_get buf (dec_ring i_buf n) = Inr (buf ! nat (sint (dec_ring i_buf n)))"
    and "array_get buf (dec_ring (dec_ring i_buf n) n)
          = Inr (buf ! nat (sint (dec_ring (dec_ring i_buf n) n)))"
proof -
  have n: "0 <s n" "sint n \<le> 2 ^ 30" and i: "0 \<le>s i_buf" "i_buf <s n"
    and l: "length buf = nat (sint n)"
    using assms by (simp_all add: ring_ok_def)
  note d1 = ring_range(3,4) [OF n i]
  note d2 = ring_range(3,4) [OF n d1]
  have in_range: "sint j < int (length buf)" if "j <s n" for j
    using that l by (simp add: word_sless_alt)
  show "array_get buf i_buf = Inr (buf ! nat (sint i_buf))"
    using i in_range by (simp add: array_get_ok)
  show "array_get buf (dec_ring i_buf n) = Inr (buf ! nat (sint (dec_ring i_buf n)))"
    using d1 in_range by (simp add: array_get_ok)
  show "array_get buf (dec_ring (dec_ring i_buf n) n)
          = Inr (buf ! nat (sint (dec_ring (dec_ring i_buf n) n)))"
    using d2 in_range by (simp add: array_get_ok)
qed

lemma ring_ok_step: "ring_ok n buf i_buf \<Longrightarrow> ring_ok n (buf[k := v]) (inc_ring i_buf n)"
  using ring_range(1,2) [of n i_buf] by (simp add: ring_ok_def)

lemma iteration_ok:
  assumes "len \<noteq> 0" "ring_ok n buf i_buf"
  shows "iteration data buf i_buf len op_highest op_lowest n =
    (case op_lowest data len (buf ! nat (sint i_buf)) of
       Inl e \<Rightarrow> Some (Inl (e, data))
     | Inr data1 \<Rightarrow>
        (case op_highest data1 len
                ((buf ! nat (sint (dec_ring i_buf n))
                  + buf ! nat (sint (dec_ring (dec_ring i_buf n) n))) mod len) of
           Inl e \<Rightarrow> Some (Inl (e, data1))
         | Inr data2 \<Rightarrow>
             Some (Inr (data2,
               buf[nat (sint i_buf) := (buf ! nat (sint (dec_ring i_buf n))
                  + buf ! nat (sint (dec_ring (dec_ring i_buf n) n))) mod len],
               inc_ring i_buf n))))"
  by (rule iteration_reads [OF assms(1) ring_ok_reads [OF assms(2)]])

lemmas eval_defs = traverse_def fibo_lookahead_foreach_def iteration_def array_get_def
  array_set_def inc_ring_def dec_ring_def increment_def nop_def prefetch_def log_call_def
  reduce_eq seed_loop.simps main_loop.simps word_sless_alt word_sle_eq

lemma replicate_num: "replicate (numeral k) x = x # replicate (pred_numeral k) x"
  by (simp add: numeral_eq_Suc)

lemma iteration_log:
  assumes "len \<noteq> 0" "ring_ok n buf i_buf"
  shows "iteration tr buf i_buf len (log_call Highest) (log_call Lowest) n =
    Some (Inr (tr @ [Lowest (buf ! nat (sint i_buf)),
                     Highest ((buf ! nat (sint (dec_ring i_buf n))
                       + buf ! nat (sint (dec_ring (dec_ring i_buf n) n))) mod len)],
               buf[nat (sint i_buf) := (buf ! nat (sint (dec_ring i_buf n))
                       + buf ! nat (sint (dec_ring (dec_ring i_buf n) n))) mod len],
               inc_ring i_buf n))"
  by (simp add: iteration_ok [OF assms] log_call_def)

text \<open>
  The sum of two values below \<open>len\<close> is below \<open>2 * len\<close>, also as a 64-bit sum, and the
  reduction loop returns it after at most one subtraction.
\<close>

lemma reduce_once:
  assumes a: "a < len" and b: "b < len"
  shows "unat a + unat b < 2 * unat len"
    and "unat (a + b) < 2 * unat len"
    and "reduce (a + b) len = Some (if len \<le> a + b then a + b - len else a + b)"
    and "(a + b) mod len = (if len \<le> a + b then a + b - len else a + b)"
proof -
  have len: "len \<noteq> 0" using a by auto
  show m: "unat a + unat b < 2 * unat len"
    using a b by (simp add: word_less_nat_alt)
  have "unat (a + b) \<le> unat a + unat b"
    by (simp add: unat_word_ariths)
  then show lt: "unat (a + b) < 2 * unat len"
    using m by simp
  have one: "\<not> len \<le> a + b - len" if "len \<le> a + b"
  proof -
    have "unat (a + b - len) = unat (a + b) - unat len"
      using that by (simp add: unat_sub)
    then show ?thesis using lt that by (simp add: word_le_nat_alt)
  qed
  show r: "reduce (a + b) len = Some (if len \<le> a + b then a + b - len else a + b)"
  proof (cases "len \<le> a + b")
    case True
    then have "reduce (a + b) len = reduce (a + b - len) len"
      by (subst reduce.simps) simp
    also have "\<dots> = Some (a + b - len)"
      using one [OF True] by (subst reduce.simps) simp
    finally show ?thesis using True by simp
  next
    case False
    then show ?thesis by (subst reduce.simps) simp
  qed
  show "(a + b) mod len = (if len \<le> a + b then a + b - len else a + b)"
    using r reduce_mod [OF len, of "a + b"] by simp
qed

section \<open>Claims about concrete runs\<close>

text \<open>
  Claim C6. With buffer length 10 and lookahead depth 3 the seeded ring is \<open>[1, 1, 2]\<close>.
  After one iteration with \<open>op_lowest = increment\<close> (and \<open>op_highest\<close> either \<open>nop\<close> or
  \<open>prefetch\<close>) on a buffer of ten zeros, ring slot 0 holds 3, the ring position is 1, and the buffer has been incremented once, at index 1;
  the log of calls shows the one call of \<open>op_lowest\<close>, with index 1, and the one call of
  \<open>op_highest\<close>, with index 3.
\<close>

theorem C6_first_iteration:
  "seed_loop (replicate (nat (sint (3::cint))) 0) 0 1 0 10 3 = Some (Inr [1, 1, 2])
   \<and> traverse (replicate 10 0) 10 1 nop increment 3
        = Some (Inr ([0, 1, 0, 0, 0, 0, 0, 0, 0, 0], [3, 1, 2], 1))
   \<and> traverse (replicate 10 0) 10 1 prefetch increment 3
        = Some (Inr ([0, 1, 0, 0, 0, 0, 0, 0, 0, 0], [3, 1, 2], 1))
   \<and> traverse [] 10 1 (log_call Highest) (log_call Lowest) 3
        = Some (Inr ([Lowest 1, Highest 3], [3, 1, 2], 1))"
  by (simp add: eval_defs replicate_num)

text \<open>
  Claim C5, at the failing input: seeding a ring of one slot with buffer length 1 returns
  the ring \<open>[1]\<close>, and 1 is not below the buffer length 1. The seed 1 is stored before any
  reduction.
\<close>

theorem C5_seed_not_below_len:
  "seed_loop (replicate (nat (sint (1::cint))) 0) 0 1 0 1 1 = Some (Inr [1])
   \<and> \<not> (1::u64) < 1"
  by (simp add: eval_defs replicate_num)

text \<open>
  Claim C2, at the failing input: with buffer length 1, one iteration and a ring of one
  slot, \<open>op_lowest\<close> is called with index 1, which is not below the buffer length 1; with
  \<open>op_lowest = increment\<close> on a buffer of one element the access is outside the buffer.
\<close>

theorem C2_index_not_below_len:
  "traverse [] 1 1 (log_call Highest) (log_call Lowest) 1
     = Some (Inr ([Lowest 1, Highest 0], [0], 0))
   \<and> \<not> call_index (Lowest 1) < 1
   \<and> fibo_lookahead_foreach [0] 1 1 nop increment 1 = Some (Inl (OutOfBounds, [0]))"
  by (simp add: eval_defs replicate_num)

section \<open>The traversal returns\<close>

lemma iteration_total: "len \<noteq> 0 \<Longrightarrow> iteration data buf i_buf len op_highest op_lowest n \<noteq> None"
  by (simp add: iteration_def reduce_eq Let_def split: sum.splits)

lemma main_loop_total:
  "len \<noteq> 0 \<Longrightarrow> main_loop data buf i_buf i len iters op_highest op_lowest n \<noteq> None"
proof (induction data buf i_buf i len iters op_highest op_lowest n rule: main_loop.induct)
  case (1 data buf i_buf i len iters op_highest op_lowest n)
  show ?case
  proof (cases "i <s iters")
    case False
    then show ?thesis by (subst main_loop.simps) simp
  next
    case True
    obtain r where r: "iteration data buf i_buf len op_highest op_lowest n = Some r"
      using iteration_total [OF "1.prems", of data buf i_buf op_highest op_lowest n] by blast
    show ?thesis
    proof (cases r)
      case (Inl f)
      then show ?thesis using True r by (subst main_loop.simps) simp
    next
      case (Inr s)
      obtain data' buf' i_buf' where s: "s = (data', buf', i_buf')" by (cases s) auto
      have "main_loop data' buf' i_buf' (i + 1) len iters op_highest op_lowest n \<noteq> None"
        using "1.IH" [OF True r Inr s [symmetric] refl "1.prems"] .
      then show ?thesis using True r Inr s by (subst main_loop.simps) simp
    qed
  qed
qed

lemma traverse_total: "len \<noteq> 0 \<Longrightarrow> traverse data len iters op_highest op_lowest n \<noteq> None"
  using seed_loop_total [of len] main_loop_total [of len]
  by (auto simp: traverse_def split: option.splits sum.splits)

lemma prefetch_nop: "prefetch = nop"
  by (intro ext) (simp add: prefetch_def nop_def)

text \<open>
  Claim C1. For every buffer length other than 0 (so for every \<open>len > 1\<close>), every
  iteration count and every lookahead depth, the traversal with \<open>op_lowest = increment\<close>
  and \<open>op_highest = prefetch\<close> returns, and it returns exactly what the traversal with
  \<open>op_highest = nop\<close> returns from the same buffer: the same final buffer contents, or the
  same fault with the same buffer contents.
\<close>

theorem C1_prefetch_same_as_nop:
  assumes "len \<noteq> 0"
  shows "\<exists>r. fibo_lookahead_foreach data len iters prefetch increment n = Some r
           \<and> fibo_lookahead_foreach data len iters nop increment n = Some r"
  using traverse_total [OF assms, of data iters nop increment n]
  by (auto simp: fibo_lookahead_foreach_def prefetch_nop)

text \<open>Claim C1, witness: buffer length 10, one iteration, lookahead depth 3.\<close>

theorem C1_prefetch_same_as_nop_witness:
  "(10::u64) \<noteq> 0
   \<and> (\<exists>r. fibo_lookahead_foreach (replicate 10 0) 10 1 prefetch increment 3 = Some r
           \<and> fibo_lookahead_foreach (replicate 10 0) 10 1 nop increment 3 = Some r)"
proof -
  have h: "(10::u64) \<noteq> 0" by simp
  show ?thesis by (intro conjI h C1_prefetch_same_as_nop [OF h])
qed

section \<open>Two runs on the same ring\<close>

text \<open>
  The ring evolves in the same way whatever the operations do. Two runs whose buffers are
  related by \<open>R\<close>, with operations that keep \<open>R\<close> at every index below \<open>len\<close>, end in
  related outcomes: both fault with the same fault, or both return, with the same ring.
\<close>

lemma iteration_rel:
  assumes len: "len \<noteq> 0" and buf: "\<forall>v \<in> set buf. v < len"
    and ol: "\<And>d t x. R d t \<Longrightarrow> x < len \<Longrightarrow> rel_sum (=) R (ol d len x) (ol' t len x)"
    and oh: "\<And>d t x. R d t \<Longrightarrow> x < len \<Longrightarrow> rel_sum (=) R (oh d len x) (oh' t len x)"
    and R: "R d t"
  shows "rel_option (rel_sum (rel_prod (=) R)
            (rel_prod R (\<lambda>s s'. s = s' \<and> (\<forall>v \<in> set (fst s). v < len))))
          (iteration d buf i_buf len oh ol n) (iteration t buf i_buf len oh' ol' n)"
proof (cases "array_get buf i_buf")
  case (Inl e)
  then show ?thesis using R by (simp add: iteration_def)
next
  case lo: (Inr lowest)
  have "lowest < len" using buf array_get_Inr(3) [OF lo] by blast
  from ol [OF R this] show ?thesis
  proof (cases rule: rel_sum.cases)
    case (1 e e')
    then show ?thesis using R lo by (simp add: iteration_def)
  next
    case (2 d1 t1)
    show ?thesis
    proof (cases "array_get buf (dec_ring i_buf n)")
      case (Inl e)
      then show ?thesis using 2 lo by (simp add: iteration_def)
    next
      case pa: (Inr a)
      show ?thesis
      proof (cases "array_get buf (dec_ring (dec_ring i_buf n) n)")
        case (Inl e)
        then show ?thesis using 2 lo pa by (simp add: iteration_def)
      next
        case pb: (Inr b)
        let ?v = "(a + b) mod len"
        let ?buf = "buf[nat (sint i_buf) := ?v]"
        have v: "?v < len" using len by (rule word_mod_less_len)
        have st: "array_set buf i_buf ?v = Inr ?buf" by (rule array_get_Inr(4) [OF lo])
        have bd: "\<forall>x \<in> set ?buf. x < len"
          using buf v set_update_subset_insert [of buf "nat (sint i_buf)" ?v] by auto
        from oh [OF 2(3) v] show ?thesis
        proof (cases rule: rel_sum.cases)
          case (1 e e')
          then show ?thesis using 2 lo pa pb st len by (simp add: iteration_def reduce_eq)
        next
          case hi: (2 d2 t2)
          then show ?thesis using 2 lo pa pb st len bd by (simp add: iteration_def reduce_eq)
        qed
      qed
    qed
  qed
qed

lemma main_loop_rel:
  assumes len: "len \<noteq> 0"
    and ol: "\<And>d t x. R d t \<Longrightarrow> x < len \<Longrightarrow> rel_sum (=) R (ol d len x) (ol' t len x)"
    and oh: "\<And>d t x. R d t \<Longrightarrow> x < len \<Longrightarrow> rel_sum (=) R (oh d len x) (oh' t len x)"
    and R: "R d t" and buf: "\<forall>v \<in> set buf. v < len"
  shows "rel_option (rel_sum (rel_prod (=) R)
            (rel_prod R (\<lambda>s s'. s = s' \<and> (\<forall>v \<in> set (fst s). v < len))))
       (main_loop d buf i_buf i len iters oh ol n) (main_loop t buf i_buf i len iters oh' ol' n)"
  using assms
proof (induction d buf i_buf i len iters oh ol n arbitrary: t rule: main_loop.induct)
  case (1 d buf i_buf i len iters oh ol n)
  show ?case
  proof (cases "i <s iters")
    case False
    then show ?thesis
      using "1.prems"(4,5) by (simp add: main_loop.simps [of _ _ _ i])
  next
    case True
    have "rel_option (rel_sum (rel_prod (=) R)
            (rel_prod R (\<lambda>s s'. s = s' \<and> (\<forall>v \<in> set (fst s). v < len))))
          (iteration d buf i_buf len oh ol n) (iteration t buf i_buf len oh' ol' n)"
      using "1.prems"
      by (intro iteration_rel [where R = R and ol = ol and ol' = ol' and oh = oh and oh' = oh'])
    then show ?thesis
    proof (cases rule: option.rel_cases)
      case None
      then show ?thesis using True by (simp add: main_loop.simps [of _ _ _ i])
    next
      case (Some x y)
      from Some(3) show ?thesis
      proof (cases rule: rel_sum.cases)
        case (1 f f')
        then show ?thesis using True Some by (simp add: main_loop.simps [of _ _ _ i])
      next
        case (2 s s')
        obtain d' buf' i_buf' where s: "s = (d', buf', i_buf')" by (cases s) auto
        obtain t' where s': "s' = (t', buf', i_buf')" and R': "R d' t'"
          and bd: "\<forall>v \<in> set buf'. v < len"
          using 2(3) s by (cases s') auto
        have "rel_option (rel_sum (rel_prod (=) R)
            (rel_prod R (\<lambda>s s'. s = s' \<and> (\<forall>v \<in> set (fst s). v < len))))
          (main_loop d' buf' i_buf' (i + 1) len iters oh ol n)
          (main_loop t' buf' i_buf' (i + 1) len iters oh' ol' n)"
          using "1.IH" [OF True Some(1) 2(1) s [symmetric] refl "1.prems"(1,2,3) R' bd] .
        then show ?thesis
          using True Some 2 s s' by (simp add: main_loop.simps [of _ _ _ i])
      qed
    qed
  qed
qed

section \<open>Runs with \<open>increment\<close> and the log of calls\<close>

lemma sint_diff_succ:
  assumes "i <s iters"
  shows "nat (sint iters - sint i) = Suc (nat (sint iters - sint (i + 1 :: cint)))"
  using assms sint_succ_less [OF assms] by (simp add: word_sless_alt)

lemma main_loop_log:
  assumes "len \<noteq> 0" "ring_ok n buf i_buf" "i \<le>s iters"
  shows "\<exists>tr' buf' i_buf'.
     main_loop tr buf i_buf i len iters (log_call Highest) (log_call Lowest) n
       = Some (Inr (tr', buf', i_buf'))
     \<and> ring_ok n buf' i_buf'
     \<and> length (filter is_lowest tr') = length (filter is_lowest tr) + nat (sint iters - sint i)"
  using assms
proof (induction tr buf i_buf i len iters "log_call Highest" "log_call Lowest" n
    rule: main_loop.induct)
  case (1 tr buf i_buf i len iters n)
  show ?case
  proof (cases "i <s iters")
    case False
    then have "sint iters - sint i = 0"
      using "1.prems"(3) by (simp add: word_sle_eq word_sless_alt)
    then show ?thesis
      using False "1.prems"(2) by (simp add: main_loop.simps [of _ _ _ i])
  next
    case True
    let ?lo = "buf ! nat (sint i_buf)"
    let ?v = "(buf ! nat (sint (dec_ring i_buf n))
                  + buf ! nat (sint (dec_ring (dec_ring i_buf n) n))) mod len"
    let ?tr = "tr @ [Lowest ?lo, Highest ?v]"
    let ?buf = "buf[nat (sint i_buf) := ?v]"
    have it: "iteration tr buf i_buf len (log_call Highest) (log_call Lowest) n
        = Some (Inr (?tr, ?buf, inc_ring i_buf n))"
      by (simp add: iteration_ok [OF "1.prems"(1,2)] log_call_def)
    have ok: "ring_ok n ?buf (inc_ring i_buf n)"
      using "1.prems"(2) by (rule ring_ok_step)
    have le: "i + 1 \<le>s iters"
      using True sint_succ_less [OF True] by (simp add: word_sle_eq word_sless_alt)
    from "1.hyps" [OF True it refl refl refl "1.prems"(1) ok le]
    obtain tr' buf' i_buf' where r:
      "main_loop ?tr ?buf (inc_ring i_buf n) (i + 1) len iters (log_call Highest) (log_call Lowest) n
         = Some (Inr (tr', buf', i_buf'))"
      "ring_ok n buf' i_buf'"
      "length (filter is_lowest tr') = length (filter is_lowest ?tr) + nat (sint iters - sint (i + 1))"
      by blast
    have "main_loop tr buf i_buf i len iters (log_call Highest) (log_call Lowest) n
         = Some (Inr (tr', buf', i_buf'))"
      using True it r(1) by (simp add: main_loop.simps [of _ _ _ i])
    moreover have "length (filter is_lowest tr')
        = length (filter is_lowest tr) + nat (sint iters - sint i)"
      using r(3) sint_diff_succ [OF True] by simp
    ultimately show ?thesis using r(2) by blast
  qed
qed

lemma sum_list_update_add:
  "k < length xs \<Longrightarrow> sum_list (xs[k := xs ! k + c]) = sum_list xs + (c :: 'a :: comm_monoid_add)"
proof (induction xs arbitrary: k)
  case Nil
  then show ?case by simp
next
  case (Cons x xs)
  then show ?case by (cases k) (simp_all add: ac_simps)
qed

lemma of_nat_eq_iff_unat:
  "j < 2 ^ 64 \<Longrightarrow> (of_nat j = (x :: u64)) = (j = unat x)"
  by (auto simp: unat_of_nat)

lemma increment_log_rel:
  assumes len: "length d0 = unat len"
    and R: "length d = length d0
       \<and> (\<forall>j < length d0. d ! j = d0 ! j + of_nat (count_list tr (Lowest (of_nat j))))
       \<and> sum_list d = sum_list d0 + of_nat (length (filter is_lowest tr))"
    and x: "x < len"
  shows "\<exists>d'. increment d len x = Inr d' \<and> length d' = length d0
       \<and> (\<forall>j < length d0. d' ! j = d0 ! j + of_nat (count_list (tr @ [Lowest x]) (Lowest (of_nat j))))
       \<and> sum_list d' = sum_list d0 + of_nat (length (filter is_lowest (tr @ [Lowest x])))"
proof -
  let ?k = "unat x"
  let ?d = "d[?k := d ! ?k + 1]"
  have k: "?k < length d" using x len R by (simp add: word_less_nat_alt)
  have inc: "increment d len x = Inr ?d" using k by (simp add: increment_def)
  have big: "length d0 < 2 ^ 64" using len unsigned_less [of len, where ?'a = nat] by simp
  have el: "?d ! j = d0 ! j + of_nat (count_list (tr @ [Lowest x]) (Lowest (of_nat j)))"
    if "j < length d0" for j
  proof -
    have j64: "j < 2 ^ 64" using that big by simp
    have old: "d ! j = d0 ! j + of_nat (count_list tr (Lowest (of_nat j)))"
      using R that by blast
    show ?thesis
    proof (cases "j = ?k")
      case True
      then have "of_nat j = x" by simp
      then show ?thesis using True k old by simp
    next
      case False
      then have "x \<noteq> of_nat j" using of_nat_eq_iff_unat [OF j64, of x] by auto
      then show ?thesis using False old by simp
    qed
  qed
  have sm: "sum_list ?d = sum_list d0 + of_nat (length (filter is_lowest (tr @ [Lowest x])))"
    using R sum_list_update_add [OF k, of 1] by simp
  show ?thesis using inc R el sm by simp
qed

lemma main_loop_increment:
  assumes len: "len \<noteq> 0" and ok: "ring_ok n buf i_buf" and bd: "\<forall>v \<in> set buf. v < len"
    and le: "i \<le>s iters" and d0: "length d0 = unat len"
    and oh: "op_highest = nop \<or> op_highest = prefetch"
  shows "\<exists>d' tr buf' i_buf'.
      main_loop d0 buf i_buf i len iters op_highest increment n = Some (Inr (d', buf', i_buf'))
    \<and> main_loop [] buf i_buf i len iters (log_call Highest) (log_call Lowest) n
        = Some (Inr (tr, buf', i_buf'))
    \<and> ring_ok n buf' i_buf' \<and> (\<forall>v \<in> set buf'. v < len)
    \<and> length (filter is_lowest tr) = nat (sint iters - sint i)
    \<and> length d' = length d0
    \<and> (\<forall>j < length d0. d' ! j = d0 ! j + of_nat (count_list tr (Lowest (of_nat j))))
    \<and> sum_list d' = sum_list d0 + of_nat (length (filter is_lowest tr))"
proof -
  define R where "R = (\<lambda>d tr. length d = length d0
       \<and> (\<forall>j < length d0. d ! j = d0 ! j + of_nat (count_list tr (Lowest (of_nat j))))
       \<and> sum_list d = sum_list d0 + of_nat (length (filter is_lowest tr)))"
  have R0: "R d0 []" by (simp add: R_def)
  have rl: "rel_sum (=) R (increment d len x) (log_call Lowest t len x)"
    if h: "R d t" "x < len" for d t x
  proof -
    obtain d' where "increment d len x = Inr d'" "R d' (t @ [Lowest x])"
      using increment_log_rel [OF d0 h(1) [unfolded R_def] h(2)] unfolding R_def by blast
    then show ?thesis by (simp add: log_call_def)
  qed
  have rh: "rel_sum (=) R (op_highest d len x) (log_call Highest t len x)"
    if "R d t" "x < len" for d t x
  proof -
    have "op_highest d len x = Inr d" using oh by (auto simp: nop_def prefetch_def)
    moreover have "R d (t @ [Highest x])" using that(1) by (simp add: R_def)
    ultimately show ?thesis by (simp add: log_call_def)
  qed
  obtain tr buf' i_buf' where lg:
    "main_loop [] buf i_buf i len iters (log_call Highest) (log_call Lowest) n
       = Some (Inr (tr, buf', i_buf'))"
    "ring_ok n buf' i_buf'"
    "length (filter is_lowest tr) = nat (sint iters - sint i)"
    using main_loop_log [OF len ok le, of "[]"] by auto
  have "rel_option (rel_sum (rel_prod (=) R)
            (rel_prod R (\<lambda>s s'. s = s' \<and> (\<forall>v \<in> set (fst s). v < len))))
       (main_loop d0 buf i_buf i len iters op_highest increment n)
       (main_loop [] buf i_buf i len iters (log_call Highest) (log_call Lowest) n)"
    using len rl rh R0 bd
    by (intro main_loop_rel [where R = R and ol = increment and ol' = "log_call Lowest"
          and oh = op_highest and oh' = "log_call Highest"])
  then obtain d' where r:
    "main_loop d0 buf i_buf i len iters op_highest increment n = Some (Inr (d', buf', i_buf'))"
    "R d' tr" "\<forall>v \<in> set buf'. v < len"
    unfolding lg(1)
    by (auto simp: option_rel_Some2 elim!: rel_sum.cases)
  show ?thesis
    using r(1) lg r(3) r(2) [unfolded R_def] by simp
qed

lemma seeded_ring:
  assumes "len \<noteq> 0" "0 <s n"
  shows "\<exists>buf. seed_loop (replicate (nat (sint n)) 0) 0 1 0 len n = Some (Inr buf)
     \<and> length buf = nat (sint n) \<and> buf ! 0 = 1 \<and> (1 < len \<longrightarrow> (\<forall>v \<in> set buf. v < len))"
proof -
  have n: "0 \<le>s n" using assms(2) by (simp add: word_sle_eq word_sless_alt)
  have z: "(0::cint) \<le>s 0" by (simp add: word_sle_eq)
  have l: "length (replicate (nat (sint n)) (0::u64)) = nat (sint n)" by simp
  have pos: "0 < len" using assms(1) by (simp add: word_neq_0_conv)
  from seed_loop_ok [OF assms(1) z n l, of 1 0]
  obtain buf where b: "seed_loop (replicate (nat (sint n)) 0) 0 1 0 len n = Some (Inr buf)"
    "length buf = length (replicate (nat (sint n)) (0::u64))"
    "0 <s n \<longrightarrow> buf ! nat (sint (0::cint)) = 1"
    "(\<forall>v \<in> set (replicate (nat (sint n)) (0::u64)). v < len) \<and> 1 < len \<longrightarrow> (\<forall>v \<in> set buf. v < len)"
    by blast
  have "buf ! 0 = 1" using b(3) assms(2) by simp
  moreover have "1 < len \<longrightarrow> (\<forall>v \<in> set buf. v < len)" using b(4) pos by simp
  ultimately show ?thesis using b(1,2) by simp
qed

lemma traverse_increment:
  assumes len: "1 < len" and n: "0 <s n" "sint n \<le> 2 ^ 30" and it: "0 \<le>s iters"
    and d0: "length d0 = unat len" and oh: "op_highest = nop \<or> op_highest = prefetch"
  shows "\<exists>d' tr buf' i_buf'.
      traverse d0 len iters op_highest increment n = Some (Inr (d', buf', i_buf'))
    \<and> traverse [] len iters (log_call Highest) (log_call Lowest) n = Some (Inr (tr, buf', i_buf'))
    \<and> ring_ok n buf' i_buf' \<and> (\<forall>v \<in> set buf'. v < len)
    \<and> length (filter is_lowest tr) = nat (sint iters)
    \<and> length d' = length d0
    \<and> (\<forall>j < length d0. d' ! j = d0 ! j + of_nat (count_list tr (Lowest (of_nat j))))
    \<and> sum_list d' = sum_list d0 + of_nat (length (filter is_lowest tr))"
proof -
  have l0: "len \<noteq> 0" using len by auto
  obtain buf where b: "seed_loop (replicate (nat (sint n)) 0) 0 1 0 len n = Some (Inr buf)"
    "length buf = nat (sint n)" "\<forall>v \<in> set buf. v < len"
    using seeded_ring [OF l0 n(1)] len by blast
  have ok: "ring_ok n buf 0"
    using n b(2) by (simp add: ring_ok_def word_sle_eq word_sless_alt)
  show ?thesis
    using main_loop_increment [OF l0 ok b(3) it d0 oh] b(1)
    by (simp add: traverse_def)
qed

section \<open>Claims about the data buffer\<close>

text \<open>
  Claim C10, as the code has it. For every \<open>len > 1\<close>, every \<open>n\<close> with \<open>0 < n \<le> 2^30\<close>, every
  \<open>iters \<ge> 0\<close> and a data buffer of \<open>len\<close> elements, the traversal with
  \<open>op_lowest = increment\<close> and \<open>op_highest\<close> one of \<open>nop\<close> and \<open>prefetch\<close> returns, and it changes
  the buffer only by incrementing the element at the current index, once per iteration:
  \<open>op_lowest\<close> is called \<open>iters\<close> times; every element has grown by the number of calls of
  \<open>op_lowest\<close> with its index; every element whose index is never the current index is
  unchanged; and the sum of all elements has grown by \<open>iters\<close>. Elements and sums are
  64-bit values, and their arithmetic wraps around.
\<close>

theorem C10_increment_frame:
  assumes "1 < len" "0 <s n" "sint n \<le> 2 ^ 30" "0 \<le>s iters" "length data = unat len"
    and "op_highest = nop \<or> op_highest = prefetch"
  shows "\<exists>data' tr.
      fibo_lookahead_foreach data len iters op_highest increment n = Some (Inr data')
    \<and> fibo_lookahead_foreach [] len iters (log_call Highest) (log_call Lowest) n = Some (Inr tr)
    \<and> length (filter is_lowest tr) = nat (sint iters)
    \<and> length data' = length data
    \<and> (\<forall>j < length data. data' ! j = data ! j + of_nat (count_list tr (Lowest (of_nat j))))
    \<and> (\<forall>j < length data. Lowest (of_nat j) \<notin> set tr \<longrightarrow> data' ! j = data ! j)
    \<and> sum_list data' = sum_list data + of_nat (nat (sint iters))"
proof -
  from traverse_increment [OF assms]
  obtain d' tr buf' i_buf' where t:
    "traverse data len iters op_highest increment n = Some (Inr (d', buf', i_buf'))"
    "traverse [] len iters (log_call Highest) (log_call Lowest) n = Some (Inr (tr, buf', i_buf'))"
    "length (filter is_lowest tr) = nat (sint iters)"
    "length d' = length data"
    "\<forall>j < length data. d' ! j = data ! j + of_nat (count_list tr (Lowest (of_nat j)))"
    "sum_list d' = sum_list data + of_nat (length (filter is_lowest tr))"
    by blast
  have frame: "\<forall>j < length data. Lowest (of_nat j) \<notin> set tr \<longrightarrow> d' ! j = data ! j"
    using t(5) by (simp add: count_notin)
  show ?thesis
  proof (intro exI conjI)
    show "fibo_lookahead_foreach data len iters op_highest increment n = Some (Inr d')"
      using t(1) by (simp add: fibo_lookahead_foreach_def)
    show "fibo_lookahead_foreach [] len iters (log_call Highest) (log_call Lowest) n = Some (Inr tr)"
      using t(2) by (simp add: fibo_lookahead_foreach_def)
    show "length (filter is_lowest tr) = nat (sint iters)" by (rule t(3))
    show "length d' = length data" by (rule t(4))
    show "\<forall>j < length data. d' ! j = data ! j + of_nat (count_list tr (Lowest (of_nat j)))"
      by (rule t(5))
    show "\<forall>j < length data. Lowest (of_nat j) \<notin> set tr \<longrightarrow> d' ! j = data ! j" by (rule frame)
    show "sum_list d' = sum_list data + of_nat (nat (sint iters))" using t(6) t(3) by simp
  qed
qed

text \<open>
  Claim C10, witness: a buffer of ten zeros, \<open>len = 10\<close>, one iteration, \<open>n = 3\<close>,
  \<open>op_highest = nop\<close>.
\<close>

theorem C10_increment_frame_witness:
  "(1::u64) < 10 \<and> 0 <s (3::cint) \<and> sint (3::cint) \<le> 2 ^ 30 \<and> 0 \<le>s (1::cint)
   \<and> length (replicate 10 (0::clong)) = unat (10::u64) \<and> (nop = nop \<or> nop = prefetch)
   \<and> (\<exists>data' tr.
      fibo_lookahead_foreach (replicate 10 0) 10 1 nop increment 3 = Some (Inr data')
    \<and> fibo_lookahead_foreach [] 10 1 (log_call Highest) (log_call Lowest) 3 = Some (Inr tr)
    \<and> length (filter is_lowest tr) = nat (sint (1::cint))
    \<and> length data' = length (replicate 10 (0::clong))
    \<and> (\<forall>j < length (replicate 10 (0::clong)).
          data' ! j = replicate 10 0 ! j + of_nat (count_list tr (Lowest (of_nat j))))
    \<and> (\<forall>j < length (replicate 10 (0::clong)).
          Lowest (of_nat j) \<notin> set tr \<longrightarrow> data' ! j = replicate 10 0 ! j)
    \<and> sum_list data' = sum_list (replicate 10 0) + of_nat (nat (sint (1::cint))))"
proof -
  have h: "(1::u64) < 10" "0 <s (3::cint)" "sint (3::cint) \<le> 2 ^ 30" "0 \<le>s (1::cint)"
    "length (replicate 10 (0::clong)) = unat (10::u64)" "nop = nop \<or> nop = prefetch"
    by (simp_all add: word_sle_eq word_sless_alt)
  show ?thesis by (intro conjI h C10_increment_frame [OF h])
qed

text \<open>
  Claim C10, counterexample to the claim for every \<open>n > 0\<close>: with \<open>n = 2^30 + 1\<close>, \<open>len = 2\<close>,
  two iterations and the buffer \<open>[0, 0]\<close>, the first iteration increments index 1 and then
  reads the ring at \<open>dec_ring (dec_ring 0)\<close>, where \<open>2^30 + (2^30 + 1) - 1\<close> is not an \<^verbatim>\<open>int\<close>
  and the position computed is outside the ring. The run stops there with the buffer
  \<open>[0, 1]\<close>, whose sum has grown by 1 and not by \<open>iters = 2\<close>.
\<close>

theorem C10_increment_frame_counterexample:
  "fibo_lookahead_foreach [0, 0] 2 2 nop increment 1073741825
     = Some (Inl (OutOfBounds, [0, 1]))"
proof -
  have n: "0 <s (1073741825::cint)" by (simp add: word_sless_alt)
  obtain buf where b: "seed_loop (replicate (nat (sint (1073741825::cint))) 0) 0 1 0 2 1073741825 = Some (Inr buf)"
    "length buf = nat (sint (1073741825::cint))" "buf ! 0 = 1"
    using seeded_ring [OF _ n, of 2] by auto
  have l: "length buf = 1073741825" using b(2) by simp
  have "iteration [0, 0] buf 0 2 nop increment 1073741825 = Some (Inl (OutOfBounds, [0, 1]))"
    using l b(3)
    by (simp add: iteration_def array_get_def dec_ring_def increment_def word_sle_eq)
  then have "main_loop [0, 0] buf 0 0 2 2 nop increment 1073741825 = Some (Inl (OutOfBounds, [0, 1]))"
    by (simp add: main_loop.simps [of _ _ _ 0] word_sless_alt)
  then show ?thesis using b(1) by (simp add: fibo_lookahead_foreach_def traverse_def)
qed

section \<open>The ring before the first reduction\<close>

lemma fib_Suc_ge: "fib k \<le> fib (Suc k)"
  by (induction k rule: fib.induct) auto

lemma fib_mono: "a \<le> b \<Longrightarrow> fib a \<le> fib b"
  by (rule lift_Suc_mono_le [where f = fib]) (auto simp: fib_Suc_ge)

lemma fib_pos: "0 < k \<Longrightarrow> 0 < fib k"
  by (induction k rule: fib.induct) auto

lemma of_nat_small:
  assumes "x < unat (len :: u64)"
  shows "unat (of_nat x :: u64) = x" "(of_nat x :: u64) < len"
proof -
  have "x < 2 ^ 64" using assms unsigned_less [of len, where ?'a = nat] by simp
  then show u: "unat (of_nat x :: u64) = x" by (simp add: unat_of_nat)
  show "(of_nat x :: u64) < len" using assms u by (simp add: word_less_nat_alt)
qed

lemma ring_positions:
  assumes "ring_ok n buf i_buf"
  shows "nat (sint i_buf) < nat (sint n)"
    and "nat (sint (inc_ring i_buf n))
          = (if nat (sint i_buf) + 1 = nat (sint n) then 0 else nat (sint i_buf) + 1)"
    and "nat (sint (dec_ring i_buf n))
          = (if nat (sint i_buf) = 0 then nat (sint n) - 1 else nat (sint i_buf) - 1)"
    and "ring_ok n buf (dec_ring i_buf n)"
proof -
  have n: "0 <s n" "sint n \<le> 2 ^ 30" and i: "0 \<le>s i_buf" "i_buf <s n"
    and l: "length buf = nat (sint n)"
    using assms by (simp_all add: ring_ok_def)
  have i0: "0 \<le> sint i_buf" using i(1) by (simp add: word_sle_eq)
  have lt: "sint i_buf < sint n" using i(2) by (simp add: word_sless_alt)
  show "nat (sint i_buf) < nat (sint n)" using i0 lt by simp
  show "nat (sint (inc_ring i_buf n))
          = (if nat (sint i_buf) + 1 = nat (sint n) then 0 else nat (sint i_buf) + 1)"
    using i0 lt by (auto simp: sint_inc_ring [OF i] nat_add_distrib)
  show "nat (sint (dec_ring i_buf n))
          = (if nat (sint i_buf) = 0 then nat (sint n) - 1 else nat (sint i_buf) - 1)"
    using i0 lt by (auto simp: sint_dec_ring [OF i n(2)] nat_diff_distrib)
  show "ring_ok n buf (dec_ring i_buf n)"
    using n l ring_range(3,4) [OF n i] by (simp add: ring_ok_def)
qed

lemma age_step:
  fixes p s N :: nat
  assumes "p < N" "s < N" "s \<noteq> p"
  shows "(if p \<le> s then s - p else s + N - p)
    = Suc (if (if p + 1 = N then 0 else p + 1) \<le> s
           then s - (if p + 1 = N then 0 else p + 1)
           else s + N - (if p + 1 = N then 0 else p + 1))"
  using assms by (auto split: if_splits)

lemma age_dec1:
  fixes p q1 N :: nat
  shows "p < N \<Longrightarrow> q1 = (if p = 0 then N - 1 else p - 1)
    \<Longrightarrow> (if p \<le> q1 then q1 - p else q1 + N - p) = N - 1"
  by (auto split: if_splits)

lemma age_dec2:
  fixes p q1 q2 N :: nat
  shows "p < N \<Longrightarrow> 2 \<le> N \<Longrightarrow> q1 = (if p = 0 then N - 1 else p - 1)
    \<Longrightarrow> q2 = (if q1 = 0 then N - 1 else q1 - 1)
    \<Longrightarrow> (if p \<le> q2 then q2 - p else q2 + N - p) = N - 2"
  by (auto split: if_splits)

lemma age_new:
  fixes p N :: nat
  shows "p < N \<Longrightarrow>
    (if (if p + 1 = N then 0 else p + 1) \<le> p then p - (if p + 1 = N then 0 else p + 1)
     else p + N - (if p + 1 = N then 0 else p + 1)) = N - 1"
  by (auto split: if_splits)

lemma fib_ring_step:
  assumes ok: "ring_ok n buf i_buf" and n2: "2 \<le> sint n" and fr: "fib_ring n buf i_buf k"
    and small: "fib (k + nat (sint n) + 1) < unat len"
  shows "(buf ! nat (sint (dec_ring i_buf n))
            + buf ! nat (sint (dec_ring (dec_ring i_buf n) n))) mod len
          = of_nat (fib (k + nat (sint n) + 1))"
    and "fib_ring n (buf[nat (sint i_buf) := of_nat (fib (k + nat (sint n) + 1))])
           (inc_ring i_buf n) (Suc k)"
proof -
  let ?N = "nat (sint n)"
  let ?p = "nat (sint i_buf)"
  let ?q1 = "nat (sint (dec_ring i_buf n))"
  let ?q2 = "nat (sint (dec_ring (dec_ring i_buf n) n))"
  have N2: "2 \<le> ?N" using n2 by simp
  note pos = ring_positions [OF ok]
  note pos1 = ring_positions [OF pos(4)]
  have q1: "?q1 < ?N" by (rule pos1(1))
  have q2: "?q2 < ?N" by (rule ring_positions(1) [OF pos1(4)])
  have fr': "buf ! s = of_nat (fib (k + 1 + (if ?p \<le> s then s - ?p else s + ?N - ?p)))"
    if "s < ?N" for s
    using fr that by (simp add: fib_ring_def)
  have age1: "(if ?p \<le> ?q1 then ?q1 - ?p else ?q1 + ?N - ?p) = ?N - 1"
    by (rule age_dec1 [OF pos(1) pos(3)])
  have age2: "(if ?p \<le> ?q2 then ?q2 - ?p else ?q2 + ?N - ?p) = ?N - 2"
    by (rule age_dec2 [OF pos(1) N2 pos(3) pos1(3)])
  have e1: "k + 1 + (?N - 1) = k + ?N" and e2: "k + 1 + (?N - 2) = k + ?N - 1"
    using N2 by simp_all
  have a: "buf ! ?q1 = of_nat (fib (k + ?N))"
    using fr' [OF q1] unfolding age1 e1 .
  have b: "buf ! ?q2 = of_nat (fib (k + ?N - 1))"
    using fr' [OF q2] unfolding age2 e2 .
  have "k + ?N + 1 = Suc (Suc (k + ?N - 1))" "k + ?N = Suc (k + ?N - 1)" using N2 by simp_all
  then have f: "fib (k + ?N + 1) = fib (k + ?N) + fib (k + ?N - 1)"
    by (metis fib.simps(3))
  have "buf ! ?q1 + buf ! ?q2 = of_nat (fib (k + ?N + 1))"
    by (simp only: a b f of_nat_add)
  then show v: "(buf ! ?q1 + buf ! ?q2) mod len = of_nat (fib (k + ?N + 1))"
    using of_nat_small(2) [OF small] by (simp add: mod_word_less)
  show "fib_ring n (buf[?p := of_nat (fib (k + ?N + 1))]) (inc_ring i_buf n) (Suc k)"
    unfolding fib_ring_def
  proof (intro allI impI)
    fix s assume s: "s < ?N"
    have len: "length buf = ?N" using ok by (simp add: ring_ok_def)
    show "buf[?p := of_nat (fib (k + ?N + 1))] ! s = of_nat (fib (Suc k + 1 +
        (if nat (sint (inc_ring i_buf n)) \<le> s then s - nat (sint (inc_ring i_buf n))
         else s + ?N - nat (sint (inc_ring i_buf n)))))"
    proof (cases "s = ?p")
      case True
      have "buf[?p := of_nat (fib (k + ?N + 1))] ! s = of_nat (fib (k + ?N + 1))"
        using True pos(1) len by simp
      moreover have "Suc k + 1 + (?N - 1) = k + ?N + 1" using N2 by simp
      ultimately show ?thesis
        unfolding pos(2) True age_new [OF pos(1)] by (simp only:)
    next
      case False
      have "buf[?p := of_nat (fib (k + ?N + 1))] ! s = buf ! s"
        using False by simp
      moreover have "buf ! s = of_nat (fib (k + 1 + (if ?p \<le> s then s - ?p else s + ?N - ?p)))"
        by (rule fr' [OF s])
      moreover have "k + 1 + Suc x = Suc k + 1 + x" for x by simp
      ultimately show ?thesis
        unfolding pos(2) age_step [OF pos(1) s False] by (simp only:)
    qed
  qed
qed

lemma seed_loop_fib:
  assumes "0 \<le>s i_buf" "i_buf \<le>s n" "length buf = nat (sint n)"
    and "fib (nat (sint n)) < unat len"
    and "i_buf <s n \<longrightarrow> index = of_nat (fib (nat (sint i_buf) + 1))"
    and "follow = of_nat (fib (nat (sint i_buf)))"
  shows "\<exists>buf'. seed_loop buf i_buf index follow len n = Some (Inr buf')
           \<and> length buf' = length buf
           \<and> (\<forall>s < nat (sint i_buf). buf' ! s = buf ! s)
           \<and> (\<forall>s. nat (sint i_buf) \<le> s \<and> s < nat (sint n) \<longrightarrow> buf' ! s = of_nat (fib (s + 1)))"
  using assms
proof (induction buf i_buf index follow len n rule: seed_loop.induct)
  case (1 buf i_buf index follow len n)
  have i0: "0 \<le> sint i_buf" using "1.prems"(1) by (simp add: word_sle_eq)
  have le: "sint i_buf \<le> sint n" using "1.prems"(2) by (simp add: word_sle_eq)
  show ?case
  proof (cases "i_buf <s n")
    case False
    then have "nat (sint n) \<le> nat (sint i_buf)" using i0 by (simp add: word_sless_alt)
    then have "\<forall>s. nat (sint i_buf) \<le> s \<and> s < nat (sint n) \<longrightarrow> buf ! s = of_nat (fib (s + 1))"
      by auto
    then show ?thesis using False by (subst seed_loop.simps) simp
  next
    case True
    let ?j = "nat (sint i_buf)"
    let ?N = "nat (sint n)"
    let ?buf = "buf[?j := index]"
    let ?index = "(index + follow) mod len"
    have lt: "sint i_buf < sint n" using True by (simp add: word_sless_alt)
    have j: "?j < length buf" using i0 lt "1.prems"(3) by simp
    have jN: "?j < ?N" using i0 lt by simp
    have len0: "len \<noteq> 0" using "1.prems"(4) by auto
    have st: "array_set buf i_buf index = Inr ?buf"
      using i0 lt "1.prems"(1,3) by (simp add: array_set_ok)
    have red: "reduce (index + follow) len = Some ?index"
      using len0 by (simp add: reduce_eq)
    have s: "sint (i_buf + 1) = sint i_buf + 1" using True by (rule sint_succ_less)
    have js: "nat (sint (i_buf + 1)) = Suc ?j" using s i0 by (simp add: nat_add_distrib)
    have p1: "0 \<le>s i_buf + 1" using i0 s by (simp add: word_sle_eq)
    have p2: "i_buf + 1 \<le>s n" using lt s by (simp add: word_sle_eq)
    have p3: "length ?buf = nat (sint n)" using "1.prems"(3) by simp
    have ix: "index = of_nat (fib (?j + 1))" using "1.prems"(5) True by simp
    have sum: "index + follow = of_nat (fib (Suc ?j + 1))"
      by (simp only: ix "1.prems"(6) of_nat_add [symmetric] fib.simps Suc_eq_plus1 [symmetric])
    have p5: "i_buf + 1 <s n \<longrightarrow> ?index = of_nat (fib (nat (sint (i_buf + 1)) + 1))"
    proof
      assume "i_buf + 1 <s n"
      then have "Suc ?j + 1 \<le> ?N" using js by (simp add: word_sless_alt)
      then have "fib (Suc ?j + 1) < unat len"
        using fib_mono [of "Suc ?j + 1" ?N] "1.prems"(4) by simp
      then have "(of_nat (fib (Suc ?j + 1)) :: u64) < len" by (rule of_nat_small(2))
      then show "?index = of_nat (fib (nat (sint (i_buf + 1)) + 1))"
        unfolding sum js by (rule mod_word_less)
    qed
    have p6: "index = of_nat (fib (nat (sint (i_buf + 1))))" unfolding js ix by simp
    from "1.IH" [OF True st red p1 p2 p3 "1.prems"(4) p5 p6]
    obtain buf' where b:
      "seed_loop ?buf (i_buf + 1) ?index index len n = Some (Inr buf')"
      "length buf' = length ?buf"
      "\<forall>s < Suc ?j. buf' ! s = ?buf ! s"
      "\<forall>s. Suc ?j \<le> s \<and> s < ?N \<longrightarrow> buf' ! s = of_nat (fib (s + 1))"
      unfolding js by blast
    have eq: "seed_loop buf i_buf index follow len n = Some (Inr buf')"
      using True st red b(1) by (subst seed_loop.simps) simp
    have old: "\<forall>s < ?j. buf' ! s = buf ! s" using b(3) by simp
    have cur: "buf' ! ?j = of_nat (fib (?j + 1))" using b(3) j ix by simp
    have new: "\<forall>s. ?j \<le> s \<and> s < ?N \<longrightarrow> buf' ! s = of_nat (fib (s + 1))"
    proof (intro allI impI)
      fix s assume "?j \<le> s \<and> s < ?N"
      then consider "s = ?j" | "Suc ?j \<le> s \<and> s < ?N" by force
      then show "buf' ! s = of_nat (fib (s + 1))"
        using cur b(4) by cases auto
    qed
    show ?thesis
    proof (intro exI conjI)
      show "seed_loop buf i_buf index follow len n = Some (Inr buf')" by (rule eq)
      show "length buf' = length buf" using b(2) by simp
      show "\<forall>s < ?j. buf' ! s = buf ! s" by (rule old)
      show "\<forall>s. ?j \<le> s \<and> s < ?N \<longrightarrow> buf' ! s = of_nat (fib (s + 1))" by (rule new)
    qed
  qed
qed

lemma main_loop_fib:
  assumes "ring_ok n buf i_buf" "2 \<le> sint n" "fib_ring n buf i_buf k" "i \<le>s iters"
    and "fib (k + nat (sint iters - sint i) + nat (sint n)) < unat len"
  shows "\<exists>tr' buf' i_buf'.
     main_loop tr buf i_buf i len iters (log_call Highest) (log_call Lowest) n
       = Some (Inr (tr', buf', i_buf'))
     \<and> ring_ok n buf' i_buf'
     \<and> fib_ring n buf' i_buf' (k + nat (sint iters - sint i))"
  using assms
proof (induction tr buf i_buf i len iters "log_call Highest" "log_call Lowest" n arbitrary: k
    rule: main_loop.induct)
  case (1 tr buf i_buf i len iters n)
  show ?case
  proof (cases "i <s iters")
    case False
    then have "sint iters - sint i = 0"
      using "1.prems"(4) by (simp add: word_sle_eq word_sless_alt)
    then show ?thesis
      using False "1.prems"(1,3) by (simp add: main_loop.simps [of _ _ _ i])
  next
    case True
    let ?N = "nat (sint n)"
    let ?lo = "buf ! nat (sint i_buf)"
    let ?v = "(buf ! nat (sint (dec_ring i_buf n))
                  + buf ! nat (sint (dec_ring (dec_ring i_buf n) n))) mod len"
    let ?tr = "tr @ [Lowest ?lo, Highest ?v]"
    let ?buf = "buf[nat (sint i_buf) := ?v]"
    have len0: "len \<noteq> 0" using "1.prems"(5) by auto
    have rest: "nat (sint iters - sint i) = Suc (nat (sint iters - sint (i + 1)))"
      by (rule sint_diff_succ [OF True])
    have "k + ?N + 1 \<le> k + nat (sint iters - sint i) + ?N" using rest by simp
    then have small: "fib (k + ?N + 1) < unat len"
      using fib_mono [of "k + ?N + 1" "k + nat (sint iters - sint i) + ?N"] "1.prems"(5) by simp
    note st = fib_ring_step [OF "1.prems"(1,2,3) small]
    have it: "iteration tr buf i_buf len (log_call Highest) (log_call Lowest) n
        = Some (Inr (?tr, ?buf, inc_ring i_buf n))"
      by (simp add: iteration_ok [OF len0 "1.prems"(1)] log_call_def)
    have ok: "ring_ok n ?buf (inc_ring i_buf n)"
      using "1.prems"(1) by (rule ring_ok_step)
    have fr: "fib_ring n ?buf (inc_ring i_buf n) (Suc k)"
      using st(2) unfolding st(1) .
    have le: "i + 1 \<le>s iters"
      using True sint_succ_less [OF True] by (simp add: word_sle_eq word_sless_alt)
    have sm: "fib (Suc k + nat (sint iters - sint (i + 1)) + ?N) < unat len"
      using "1.prems"(5) unfolding rest by simp
    from "1.hyps" [OF True it refl refl refl ok "1.prems"(2) fr le sm]
    obtain tr' buf' i_buf' where r:
      "main_loop ?tr ?buf (inc_ring i_buf n) (i + 1) len iters (log_call Highest) (log_call Lowest) n
         = Some (Inr (tr', buf', i_buf'))"
      "ring_ok n buf' i_buf'"
      "fib_ring n buf' i_buf' (Suc k + nat (sint iters - sint (i + 1)))"
      by blast
    have "main_loop tr buf i_buf i len iters (log_call Highest) (log_call Lowest) n
         = Some (Inr (tr', buf', i_buf'))"
      using True it r(1) by (simp add: main_loop.simps [of _ _ _ i])
    moreover have "fib_ring n buf' i_buf' (k + nat (sint iters - sint i))"
      using r(3) unfolding rest by simp
    ultimately show ?thesis using r(2) by blast
  qed
qed

lemma fib_ring_order:
  assumes ok: "ring_ok n buf i_buf" and fr: "fib_ring n buf i_buf k"
    and small: "fib (k + nat (sint n)) < unat (len :: u64)"
  shows "\<forall>v \<in> set buf. buf ! nat (sint i_buf) \<le> v \<and> v \<le> buf ! nat (sint (dec_ring i_buf n))"
proof
  fix v assume "v \<in> set buf"
  let ?N = "nat (sint n)"
  let ?p = "nat (sint i_buf)"
  let ?q = "nat (sint (dec_ring i_buf n))"
  let ?age = "\<lambda>s. if ?p \<le> s then s - ?p else s + ?N - ?p"
  note pos = ring_positions [OF ok]
  have len: "length buf = ?N" using ok by (simp add: ring_ok_def)
  obtain s where s: "s < ?N" "v = buf ! s"
    using \<open>v \<in> set buf\<close> len by (auto simp: in_set_conv_nth)
  have val: "buf ! t = of_nat (fib (k + 1 + ?age t))" if "t < ?N" for t
    using fr that by (simp add: fib_ring_def)
  have bound: "fib (k + 1 + ?age t) \<le> fib (k + ?N)" if "t < ?N" for t
    using that pos(1) by (intro fib_mono) (auto split: if_splits)
  have un: "unat (buf ! t) = fib (k + 1 + ?age t)" if "t < ?N" for t
    unfolding val [OF that]
    using bound [OF that] small by (intro of_nat_small(1) [of _ len]) simp
  have q: "?q < ?N" using ring_positions(1) [OF pos(4)] .
  have ageq: "?age ?q = ?N - 1" by (rule age_dec1 [OF pos(1) pos(3)])
  have agep: "?age ?p = 0" by simp
  have "unat (buf ! ?p) \<le> unat (buf ! s)"
    unfolding un [OF pos(1)] un [OF s(1)] agep by (intro fib_mono) simp
  moreover have "unat (buf ! s) \<le> unat (buf ! ?q)"
    unfolding un [OF q] un [OF s(1)] ageq using s(1) pos(1)
    by (intro fib_mono) (auto split: if_splits)
  ultimately show "buf ! ?p \<le> v \<and> v \<le> buf ! ?q"
    using s(2) by (simp add: word_le_nat_alt)
qed

lemma single_slot_order:
  assumes ok: "ring_ok 1 buf i_buf"
  shows "\<forall>v \<in> set buf. buf ! nat (sint i_buf) \<le> v \<and> v \<le> buf ! nat (sint (dec_ring i_buf 1))"
proof -
  note pos = ring_positions [OF ok]
  have p: "nat (sint i_buf) = 0" using pos(1) by simp
  have q: "nat (sint (dec_ring i_buf 1)) = 0" using pos(3) p by simp
  have "length buf = 1" using ok by (simp add: ring_ok_def)
  then obtain x where "buf = [x]" by (cases buf) auto
  then show ?thesis by (simp add: p q)
qed

section \<open>The ring holds the values generated last\<close>

lemma ring_from_step:
  assumes p: "p < length buf"
  shows "drop (if p + 1 = length buf then 0 else p + 1) (buf[p := v])
           @ take (if p + 1 = length buf then 0 else p + 1) (buf[p := v])
         = tl (drop p buf @ take p buf) @ [v]"
proof (cases "p + 1 = length buf")
  case True
  have "buf[p := v] = take p buf @ [v]"
    using True p by (simp add: upd_conv_take_nth_drop)
  moreover have "drop p buf = [buf ! p]"
    using True p Cons_nth_drop_Suc [OF p] by simp
  ultimately show ?thesis using True by simp
next
  case False
  then have lt: "Suc p < length buf" using p by simp
  have d: "drop p buf = buf ! p # drop (Suc p) buf"
    using Cons_nth_drop_Suc [OF p] by simp
  have t: "take (Suc p) (buf[p := v]) = take p buf @ [v]"
    using p by (simp add: take_Suc_conv_app_nth)
  show ?thesis using False d t by simp
qed

lemma ring_from_ends:
  assumes ok: "ring_ok n buf i_buf"
  shows "ring_from i_buf buf \<noteq> []"
    and "hd (ring_from i_buf buf) = buf ! nat (sint i_buf)"
    and "last (ring_from i_buf buf) = buf ! nat (sint (dec_ring i_buf n))"
    and "length (ring_from i_buf buf) = nat (sint n)"
proof -
  let ?p = "nat (sint i_buf)"
  note pos = ring_positions [OF ok]
  have l: "length buf = nat (sint n)" using ok by (simp add: ring_ok_def)
  have p: "?p < length buf" using pos(1) l by simp
  have d: "drop ?p buf = buf ! ?p # drop (Suc ?p) buf"
    using Cons_nth_drop_Suc [OF p] by simp
  show "ring_from i_buf buf \<noteq> []" using d by (simp add: ring_from_def)
  show "hd (ring_from i_buf buf) = buf ! ?p" using d by (simp add: ring_from_def)
  have "length (ring_from i_buf buf) = length buf" using p by (simp add: ring_from_def)
  then show "length (ring_from i_buf buf) = nat (sint n)" unfolding l .
  show "last (ring_from i_buf buf) = buf ! nat (sint (dec_ring i_buf n))"
  proof (cases "?p = 0")
    case True
    have "buf \<noteq> []" using p by auto
    then show ?thesis using True l by (simp add: ring_from_def pos(3) last_conv_nth)
  next
    case False
    then have ne: "take ?p buf \<noteq> []" using p by auto
    have "last (ring_from i_buf buf) = last (take ?p buf)"
      using ne by (simp add: ring_from_def)
    also have "\<dots> = take ?p buf ! (?p - 1)"
      using p by (simp add: last_conv_nth [OF ne] min_def)
    also have "\<dots> = buf ! (?p - 1)" using False by simp
    finally show ?thesis using False by (simp add: pos(3))
  qed
qed

lemma ring_from_iteration:
  assumes ok: "ring_ok n buf i_buf"
  shows "ring_from (inc_ring i_buf n) (buf[nat (sint i_buf) := v]) = tl (ring_from i_buf buf) @ [v]"
proof -
  note pos = ring_positions [OF ok]
  have l: "length buf = nat (sint n)" using ok by (simp add: ring_ok_def)
  have p: "nat (sint i_buf) < length buf" using pos(1) l by simp
  show ?thesis
    unfolding ring_from_def pos(2) l [symmetric] by (rule ring_from_step [OF p])
qed

lemma main_loop_generated:
  assumes "len \<noteq> 0" "ring_ok n buf i_buf" "i \<le>s iters"
    and "generated seeds tr = older @ ring_from i_buf buf"
  shows "\<exists>tr' buf' i_buf' older'.
     main_loop tr buf i_buf i len iters (log_call Highest) (log_call Lowest) n
       = Some (Inr (tr', buf', i_buf'))
     \<and> ring_ok n buf' i_buf'
     \<and> generated seeds tr' = older' @ ring_from i_buf' buf'
     \<and> length older' = length older + nat (sint iters - sint i)"
  using assms
proof (induction tr buf i_buf i len iters "log_call Highest" "log_call Lowest" n arbitrary: older
    rule: main_loop.induct)
  case (1 tr buf i_buf i len iters n)
  show ?case
  proof (cases "i <s iters")
    case False
    then have "sint iters - sint i = 0"
      using "1.prems"(3) by (simp add: word_sle_eq word_sless_alt)
    then show ?thesis
      using False "1.prems"(2,4) by (simp add: main_loop.simps [of _ _ _ i])
  next
    case True
    let ?lo = "buf ! nat (sint i_buf)"
    let ?v = "(buf ! nat (sint (dec_ring i_buf n))
                  + buf ! nat (sint (dec_ring (dec_ring i_buf n) n))) mod len"
    let ?tr = "tr @ [Lowest ?lo, Highest ?v]"
    let ?buf = "buf[nat (sint i_buf) := ?v]"
    let ?older = "older @ [hd (ring_from i_buf buf)]"
    have it: "iteration tr buf i_buf len (log_call Highest) (log_call Lowest) n
        = Some (Inr (?tr, ?buf, inc_ring i_buf n))"
      by (rule iteration_log [OF "1.prems"(1,2)])
    have ok: "ring_ok n ?buf (inc_ring i_buf n)"
      using "1.prems"(2) by (rule ring_ok_step)
    have le: "i + 1 \<le>s iters"
      using True sint_succ_less [OF True] by (simp add: word_sle_eq word_sless_alt)
    have ne: "ring_from i_buf buf \<noteq> []" by (rule ring_from_ends(1) [OF "1.prems"(2)])
    have "generated seeds ?tr = generated seeds tr @ [?v]"
      by (simp add: generated_def)
    also have "\<dots> = older @ ring_from i_buf buf @ [?v]"
      using "1.prems"(4) by simp
    also have "\<dots> = ?older @ tl (ring_from i_buf buf) @ [?v]"
      using ne by simp
    also have "\<dots> = ?older @ ring_from (inc_ring i_buf n) ?buf"
      by (simp only: ring_from_iteration [OF "1.prems"(2)])
    finally have gen: "generated seeds ?tr = ?older @ ring_from (inc_ring i_buf n) ?buf" .
    from "1.hyps" [OF True it refl refl refl "1.prems"(1) ok le gen]
    obtain tr' buf' i_buf' older' where r:
      "main_loop ?tr ?buf (inc_ring i_buf n) (i + 1) len iters (log_call Highest) (log_call Lowest) n
         = Some (Inr (tr', buf', i_buf'))"
      "ring_ok n buf' i_buf'"
      "generated seeds tr' = older' @ ring_from i_buf' buf'"
      "length older' = length ?older + nat (sint iters - sint (i + 1))"
      by blast
    have "main_loop tr buf i_buf i len iters (log_call Highest) (log_call Lowest) n
         = Some (Inr (tr', buf', i_buf'))"
      using True it r(1) by (simp add: main_loop.simps [of _ _ _ i])
    moreover have "length older' = length older + nat (sint iters - sint i)"
      using r(4) sint_diff_succ [OF True] by simp
    ultimately show ?thesis using r(2,3) by blast
  qed
qed

text \<open>
  Whenever the values of the ring, read from the ring position on, are in non-decreasing
  order, the oldest one is the smallest and the newest one the largest. This is so before
  the first reduction, and again in later states: with \<open>len = 10\<close> and \<open>n = 3\<close> the ring after
  8 iterations is \<open>[5, 9, 4]\<close> at ring position 2.
\<close>

lemma sorted_ring_order:
  assumes ok: "ring_ok n buf i_buf" and s: "sorted (ring_from i_buf buf)"
  shows "\<forall>v \<in> set buf. buf ! nat (sint i_buf) \<le> v \<and> v \<le> buf ! nat (sint (dec_ring i_buf n))"
proof
  fix v assume v: "v \<in> set buf"
  let ?R = "ring_from i_buf buf"
  note e = ring_from_ends [OF ok]
  have "set ?R = set (take (nat (sint i_buf)) buf) \<union> set (drop (nat (sint i_buf)) buf)"
    unfolding ring_from_def by (simp only: set_append Un_commute)
  also have "\<dots> = set (take (nat (sint i_buf)) buf @ drop (nat (sint i_buf)) buf)"
    by (simp only: set_append)
  also have "\<dots> = set buf" by (simp only: append_take_drop_id)
  finally have "set ?R = set buf" .
  then have "v \<in> set ?R" using v by simp
  then obtain j where j: "j < length ?R" "?R ! j = v"
    unfolding in_set_conv_nth by blast
  have "?R ! 0 \<le> ?R ! j" using j(1) by (intro sorted_nth_mono [OF s]) simp_all
  moreover have "?R ! j \<le> ?R ! (length ?R - 1)"
    using j(1) by (intro sorted_nth_mono [OF s]) simp_all
  moreover have "hd ?R = ?R ! 0" by (rule hd_conv_nth [OF e(1)])
  moreover have "last ?R = ?R ! (length ?R - 1)" by (rule last_conv_nth [OF e(1)])
  ultimately show "buf ! nat (sint i_buf) \<le> v \<and> v \<le> buf ! nat (sint (dec_ring i_buf n))"
    using e(2,3) j(2) by simp
qed

lemma sorted_ring_later:
  "\<exists>tr. traverse [] 10 8 (log_call Highest) (log_call Lowest) 3 = Some (Inr (tr, [5, 9, 4], 2))
        \<and> sorted (ring_from 2 [5, 9, 4 :: u64])"
  by (simp add: eval_defs replicate_num ring_from_def)

section \<open>Claims about the order of the ring values\<close>

text \<open>
  Claim C8, as the code has it. For every \<open>len \<noteq> 0\<close>, every \<open>n\<close> with \<open>0 < n \<le> 2^30\<close> and every
  \<open>iters \<ge> 0\<close> the traversal returns, and in the state it ends with, after \<open>iters\<close>
  iterations:
  \<^item> the ring read from the ring position \<open>i_buf\<close> on, wrapping around, is the list of the
    \<open>n\<close> values generated last, in the order of their generation (the values generated
    are the seeds, then the values handed to \<open>op_highest\<close>); so the value at \<open>i_buf\<close> is the
    oldest value of the ring, and the value generated last, in the slot before \<open>i_buf\<close>, is
    the newest;
  \<^item> if these \<open>n\<close> values are in non-decreasing order of generation, the value at \<open>i_buf\<close> is
    the smallest value of the ring and the value generated last is the largest;
  \<^item> if \<open>n = 1\<close>, or if \<open>fib (iters + n) < len\<close>, the value at \<open>i_buf\<close> is the smallest value of
    the ring and the value generated last is the largest;
  \<^item> if \<open>n \<ge> 2\<close> and \<open>fib (iters + n) < len\<close>, the ring holds the Fibonacci numbers
    \<open>fib (iters + 1), \<dots>, fib (iters + n)\<close>, starting at \<open>i_buf\<close>: none has been reduced.
  Since \<open>iters\<close> is any iteration count, these are the states of every traversal.
\<close>

theorem C8_ring_order:
  assumes len0: "len \<noteq> 0" and n: "0 <s n" "sint n \<le> 2 ^ 30" and it: "0 \<le>s iters"
  shows "\<exists>seeds tr buf i_buf.
      seed_loop (replicate (nat (sint n)) 0) 0 1 0 len n = Some (Inr seeds)
    \<and> traverse [] len iters (log_call Highest) (log_call Lowest) n = Some (Inr (tr, buf, i_buf))
    \<and> length (generated seeds tr) = nat (sint iters) + nat (sint n)
    \<and> ring_from i_buf buf = drop (nat (sint iters)) (generated seeds tr)
    \<and> hd (ring_from i_buf buf) = buf ! nat (sint i_buf)
    \<and> last (ring_from i_buf buf) = buf ! nat (sint (dec_ring i_buf n))
    \<and> (sorted (ring_from i_buf buf) \<longrightarrow>
         (\<forall>v \<in> set buf. buf ! nat (sint i_buf) \<le> v \<and> v \<le> buf ! nat (sint (dec_ring i_buf n))))
    \<and> (sint n = 1 \<or> fib (nat (sint iters) + nat (sint n)) < unat len \<longrightarrow>
         (\<forall>v \<in> set buf. buf ! nat (sint i_buf) \<le> v \<and> v \<le> buf ! nat (sint (dec_ring i_buf n))))
    \<and> (2 \<le> sint n \<and> fib (nat (sint iters) + nat (sint n)) < unat len \<longrightarrow>
         fib_ring n buf i_buf (nat (sint iters)))"
proof -
  let ?N = "nat (sint n)"
  let ?H = "log_call Highest" and ?L = "log_call Lowest"
  let ?small = "fib (nat (sint iters) + ?N) < unat len"
  have n0: "0 \<le>s n" using n(1) by (simp add: word_sle_eq word_sless_alt)
  have z: "(0::cint) \<le>s 0" by (simp add: word_sle_eq)
  obtain seeds where b: "seed_loop (replicate ?N 0) 0 1 0 len n = Some (Inr seeds)"
    "length seeds = ?N"
    using seeded_ring [OF len0 n(1)] by blast
  have ok0: "ring_ok n seeds 0"
    using n b(2) by (simp add: ring_ok_def word_sle_eq word_sless_alt)
  have g0: "generated seeds [] = [] @ ring_from 0 seeds"
    by (simp add: generated_def ring_from_def)
  from main_loop_generated [OF len0 ok0 it g0]
  obtain tr buf i_buf older where r:
    "main_loop [] seeds 0 0 len iters ?H ?L n = Some (Inr (tr, buf, i_buf))"
    "ring_ok n buf i_buf"
    "generated seeds tr = older @ ring_from i_buf buf"
    "length older = nat (sint iters)"
    by auto
  note ends = ring_from_ends [OF r(2)]
  have run: "traverse [] len iters ?H ?L n = Some (Inr (tr, buf, i_buf))"
    using b(1) r(1) by (simp add: traverse_def)
  have fr: "fib_ring n buf i_buf (nat (sint iters))" if "2 \<le> sint n" ?small
  proof -
    have fN: "fib ?N < unat len"
      using fib_mono [of ?N "nat (sint iters) + ?N"] that(2) by simp
    have l: "length (replicate ?N (0::u64)) = ?N" by simp
    from seed_loop_fib [OF z n0 l fN, of 1 0] b(1)
    have s: "\<forall>s < ?N. seeds ! s = of_nat (fib (s + 1))" by auto
    have fr0: "fib_ring n seeds 0 0" using s by (simp add: fib_ring_def)
    have sm: "fib (0 + nat (sint iters - sint (0::cint)) + ?N) < unat len" using that(2) by simp
    from main_loop_fib [OF ok0 that(1) fr0 it sm, of "[]"] r(1)
    show ?thesis by auto
  qed
  have ord: "\<forall>v \<in> set buf. buf ! nat (sint i_buf) \<le> v \<and> v \<le> buf ! nat (sint (dec_ring i_buf n))"
    if "sint n = 1 \<or> ?small"
  proof (cases "2 \<le> sint n")
    case True
    then have sm: ?small using that by auto
    show ?thesis by (rule fib_ring_order [OF r(2) fr [OF True sm] sm])
  next
    case False
    then have "sint n = 1" using n(1) by (simp add: word_sless_alt)
    then have n1: "n = 1" by (simp add: signed_word_eqI)
    show ?thesis using single_slot_order [of buf i_buf] r(2) unfolding n1 by blast
  qed
  show ?thesis
  proof (intro exI conjI)
    show "seed_loop (replicate ?N 0) 0 1 0 len n = Some (Inr seeds)" by (rule b(1))
    show "traverse [] len iters ?H ?L n = Some (Inr (tr, buf, i_buf))" by (rule run)
    show "length (generated seeds tr) = nat (sint iters) + ?N"
      unfolding r(3) using r(4) ends(4) by simp
    show "ring_from i_buf buf = drop (nat (sint iters)) (generated seeds tr)"
      unfolding r(3) using r(4) by simp
    show "hd (ring_from i_buf buf) = buf ! nat (sint i_buf)" by (rule ends(2))
    show "last (ring_from i_buf buf) = buf ! nat (sint (dec_ring i_buf n))" by (rule ends(3))
    show "sorted (ring_from i_buf buf) \<longrightarrow>
         (\<forall>v \<in> set buf. buf ! nat (sint i_buf) \<le> v \<and> v \<le> buf ! nat (sint (dec_ring i_buf n)))"
      using sorted_ring_order [OF r(2)] by blast
    show "sint n = 1 \<or> ?small \<longrightarrow>
         (\<forall>v \<in> set buf. buf ! nat (sint i_buf) \<le> v \<and> v \<le> buf ! nat (sint (dec_ring i_buf n)))"
      using ord by blast
    show "2 \<le> sint n \<and> ?small \<longrightarrow> fib_ring n buf i_buf (nat (sint iters))"
      using fr by blast
  qed
qed

text \<open>
  Claim C8, witness: \<open>len = 10\<close>, \<open>n = 3\<close>, three iterations, where \<open>fib 6 = 8 < 10\<close>: the
  ring \<open>[3, 5, 8]\<close> at ring position 0 holds the three values generated last, they are in
  non-decreasing order, and they are \<open>fib 4, fib 5, fib 6\<close>.
\<close>

theorem C8_ring_order_witness:
  "(10::u64) \<noteq> 0 \<and> 0 <s (3::cint) \<and> sint (3::cint) \<le> 2 ^ 30 \<and> 0 \<le>s (3::cint)
   \<and> fib (nat (sint (3::cint)) + nat (sint (3::cint))) < unat (10::u64)
   \<and> (\<exists>seeds tr buf i_buf.
      seed_loop (replicate (nat (sint (3::cint))) 0) 0 1 0 10 3 = Some (Inr seeds)
    \<and> traverse [] 10 3 (log_call Highest) (log_call Lowest) 3 = Some (Inr (tr, buf, i_buf))
    \<and> length (generated seeds tr) = nat (sint (3::cint)) + nat (sint (3::cint))
    \<and> ring_from i_buf buf = drop (nat (sint (3::cint))) (generated seeds tr)
    \<and> hd (ring_from i_buf buf) = buf ! nat (sint i_buf)
    \<and> last (ring_from i_buf buf) = buf ! nat (sint (dec_ring i_buf 3))
    \<and> sorted (ring_from i_buf buf)
    \<and> list_all (\<lambda>v. buf ! nat (sint i_buf) \<le> v \<and> v \<le> buf ! nat (sint (dec_ring i_buf 3))) buf
    \<and> fib_ring 3 buf i_buf (nat (sint (3::cint))))"
proof -
  have f: "fib 6 = 8" by (simp add: numeral_eq_Suc)
  have h: "(10::u64) \<noteq> 0" "0 <s (3::cint)" "sint (3::cint) \<le> 2 ^ 30" "0 \<le>s (3::cint)"
    by (simp_all add: word_sle_eq word_sless_alt)
  have small: "fib (nat (sint (3::cint)) + nat (sint (3::cint))) < unat (10::u64)"
    by (simp add: f)
  have two: "2 \<le> sint (3::cint)" by simp
  from C8_ring_order [OF h]
  obtain seeds tr buf i_buf where t:
    "seed_loop (replicate (nat (sint (3::cint))) 0) 0 1 0 10 3 = Some (Inr seeds)"
    "traverse [] 10 3 (log_call Highest) (log_call Lowest) 3 = Some (Inr (tr, buf, i_buf))"
    "length (generated seeds tr) = nat (sint (3::cint)) + nat (sint (3::cint))"
    "ring_from i_buf buf = drop (nat (sint (3::cint))) (generated seeds tr)"
    "hd (ring_from i_buf buf) = buf ! nat (sint i_buf)"
    "last (ring_from i_buf buf) = buf ! nat (sint (dec_ring i_buf 3))"
    "sorted (ring_from i_buf buf) \<longrightarrow>
       (\<forall>v \<in> set buf. buf ! nat (sint i_buf) \<le> v \<and> v \<le> buf ! nat (sint (dec_ring i_buf 3)))"
    "sint (3::cint) = 1 \<or> fib (nat (sint (3::cint)) + nat (sint (3::cint))) < unat (10::u64) \<longrightarrow>
       (\<forall>v \<in> set buf. buf ! nat (sint i_buf) \<le> v \<and> v \<le> buf ! nat (sint (dec_ring i_buf 3)))"
    "2 \<le> sint (3::cint) \<and> fib (nat (sint (3::cint)) + nat (sint (3::cint))) < unat (10::u64) \<longrightarrow>
       fib_ring 3 buf i_buf (nat (sint (3::cint)))"
    by blast
  have "\<exists>tr. traverse [] 10 3 (log_call Highest) (log_call Lowest) 3
      = Some (Inr (tr, [3, 5, 8], 0))"
    by (simp add: eval_defs replicate_num)
  then have "buf = [3, 5, 8]" "i_buf = 0" using t(2) by auto
  then have srt: "sorted (ring_from i_buf buf)" by (simp add: ring_from_def)
  have ord: "list_all (\<lambda>v. buf ! nat (sint i_buf) \<le> v \<and> v \<le> buf ! nat (sint (dec_ring i_buf 3))) buf"
    unfolding list_all_iff using t(7) srt by blast
  have fr: "fib_ring 3 buf i_buf (nat (sint (3::cint)))"
    using t(9) two small by blast
  show ?thesis
    by (intro conjI h small exI [of _ seeds] exI [of _ tr] exI [of _ buf] exI [of _ i_buf]
        t(1-6) srt ord fr)
qed

text \<open>
  Claim C8, counterexample to the claim for every traversal: with \<open>len = 10\<close> and \<open>n = 3\<close>
  the fourth iteration generates \<open>8 + 5 = 13\<close>, reduced to 3. The ring is then
  \<open>[3, 5, 8]\<close> with ring position 1: the value 5 at the ring position is not the smallest
  (slot 0 holds 3), and the value 3 generated last, in slot \<open>dec_ring 1 = 0\<close>, is not the
  largest (slot 2 holds 8).
\<close>

theorem C8_ring_order_counterexample:
  "traverse [] 10 4 (log_call Highest) (log_call Lowest) 3
    = Some (Inr ([Lowest 1, Highest 3, Lowest 1, Highest 5, Lowest 2, Highest 8, Lowest 3, Highest 3],
                 [3, 5, 8], 1))
   \<and> \<not> [3, 5, 8 :: u64] ! nat (sint (1::cint)) \<le> [3, 5, 8] ! 0
   \<and> \<not> [3, 5, 8 :: u64] ! 2 \<le> [3, 5, 8] ! nat (sint (dec_ring 1 3))"
  by (simp add: eval_defs replicate_num)

section \<open>Splitting a run\<close>

lemma main_loop_split:
  assumes "i \<le>s m" "m \<le>s iters"
  shows "main_loop d buf i_buf i len iters op_highest op_lowest n =
    (case main_loop d buf i_buf i len m op_highest op_lowest n of
       None \<Rightarrow> None
     | Some (Inl f) \<Rightarrow> Some (Inl f)
     | Some (Inr (d', buf', i_buf')) \<Rightarrow> main_loop d' buf' i_buf' m len iters op_highest op_lowest n)"
  using assms
proof (induction d buf i_buf i len m op_highest op_lowest n rule: main_loop.induct)
  case (1 d buf i_buf i len m op_highest op_lowest n)
  show ?case
  proof (cases "i <s m")
    case False
    then have "sint i = sint m" using "1.prems"(1) by (simp add: word_sle_eq word_sless_alt)
    then have "i = m" by (rule signed_word_eqI)
    then show ?thesis using False by (simp add: main_loop.simps [of d buf i_buf m len m])
  next
    case True
    then have lt: "i <s iters"
      using "1.prems"(2) by (simp add: word_sle_eq word_sless_alt)
    have le: "i + 1 \<le>s m"
      using True sint_succ_less [OF True] by (simp add: word_sle_eq word_sless_alt)
    show ?thesis
    proof (cases "iteration d buf i_buf len op_highest op_lowest n")
      case None
      then show ?thesis using True lt
        by (simp add: main_loop.simps [of d buf i_buf i len iters]
            main_loop.simps [of d buf i_buf i len m])
    next
      case (Some r)
      show ?thesis
      proof (cases r)
        case (Inl f)
        then show ?thesis using True lt Some
          by (simp add: main_loop.simps [of d buf i_buf i len iters]
              main_loop.simps [of d buf i_buf i len m])
      next
        case (Inr s)
        obtain d' buf' i_buf' where s: "s = (d', buf', i_buf')" by (cases s) auto
        note ih = "1.IH" [OF True Some Inr s [symmetric] refl le "1.prems"(2)]
        show ?thesis using True lt Some Inr s ih
          by (simp add: main_loop.simps [of d buf i_buf i len iters]
              main_loop.simps [of d buf i_buf i len m])
      qed
    qed
  qed
qed

lemma count_list_lowest_le: "count_list tr (Lowest x) \<le> length (filter is_lowest tr)"
  by (induction tr) auto

lemma counter_positive:
  assumes "1 \<le> unat x" "unat x + c < 2 ^ 63"
  shows "0 <s (x + of_nat c :: clong)"
proof -
  have c: "unat (of_nat c :: clong) = c" using assms(2) by (simp add: unat_of_nat)
  have "unat x + unat (of_nat c :: clong) < 2 ^ LENGTH(64)" using assms(2) c by simp
  then have u: "unat (x + of_nat c) = unat x + c"
    using c by (simp add: unat_add_lem [THEN iffD1])
  have ui: "uint (x + of_nat c) = int (unat x + c)"
    using u by (metis of_nat_unat)
  have b1: "int (unat x + c) < 2 ^ 63"
  proof -
    have "int (unat x + c) < int (2 ^ 63)" using assms(2) by (simp only: of_nat_less_iff)
    then show ?thesis by simp
  qed
  have b0: "- (2 ^ 63) \<le> int (unat x + c)"
    by (rule order_trans [of _ 0]) simp_all
  have "signed_take_bit 63 (int (unat x + c)) = int (unat x + c)"
    using b0 b1 by (rule signed_take_bit_int_eq_self)
  then have "sint (x + of_nat c) = int (unat x + c)"
    by (simp add: sint_uint ui)
  moreover have "0 < int (unat x + c)" using assms(1) by (simp only: of_nat_0_less_iff)
  ultimately show ?thesis by (simp only: word_sless_alt sint_0)
qed

section \<open>Claims about coverage\<close>

lemma seeds_50_4: "seed_loop (replicate 4 0) 0 1 0 50 4 = Some (Inr [1, 1, 2, 3])"
  by (simp add: eval_defs replicate_num)

lemma first_147:
  "main_loop (replicate 50 0) [1, 1, 2, 3] 0 0 50 147 nop increment 4
     = Some (Inr ([1, 3, 3, 6, 1, 6, 1, 4, 3, 4, 1, 6, 1, 2, 3, 4, 1, 4, 3, 4, 3, 4, 3, 4, 1,
                   4, 3, 4, 1, 4, 1, 4, 1, 4, 3, 4, 1, 6, 3, 2, 3, 4, 1, 4, 3, 2, 3, 2, 1, 3],
                  [49, 0, 49, 1], 3))"
  by (simp add: eval_defs replicate_num)

text \<open>
  Claim C7. With buffer length 50, 5000 iterations and lookahead depth 4, the traversal
  with \<open>op_lowest = increment\<close> (and \<open>op_highest\<close> either \<open>nop\<close> or \<open>prefetch\<close>) on a
  buffer of fifty zeros returns
  a buffer of fifty counters that are all positive, and the log of calls of the same
  traversal holds a call of \<open>op_lowest\<close> for every index in \<open>[0, 50)\<close>: every index is the
  current index at least once. The first 147 iterations already reach every index; the
  remaining ones only increment.
\<close>

theorem C7_coverage:
  "\<exists>data' tr.
      fibo_lookahead_foreach (replicate 50 0) 50 5000 nop increment 4 = Some (Inr data')
    \<and> fibo_lookahead_foreach (replicate 50 0) 50 5000 prefetch increment 4 = Some (Inr data')
    \<and> length data' = 50
    \<and> list_all (\<lambda>x. 0 <s x) data'
    \<and> fibo_lookahead_foreach [] 50 5000 (log_call Highest) (log_call Lowest) 4 = Some (Inr tr)
    \<and> list_all (\<lambda>j. Lowest (of_nat j) \<in> set tr) [0..<50]"
proof -
  let ?d0 = "replicate 50 (0::clong)"
  let ?d1 = "[1, 3, 3, 6, 1, 6, 1, 4, 3, 4, 1, 6, 1, 2, 3, 4, 1, 4, 3, 4, 3, 4, 3, 4, 1,
              4, 3, 4, 1, 4, 1, 4, 1, 4, 3, 4, 1, 6, 3, 2, 3, 4, 1, 4, 3, 2, 3, 2, 1, 3 :: clong]"
  let ?b1 = "[49, 0, 49, 1 :: u64]"
  have h: "(1::u64) < 50" "0 <s (4::cint)" "sint (4::cint) \<le> 2 ^ 30" "0 \<le>s (5000::cint)"
    "length ?d0 = unat (50::u64)" "nop = nop \<or> nop = prefetch"
    by (simp_all add: word_sle_eq word_sless_alt)
  from traverse_increment [OF h]
  obtain d' tr buf' i_buf' where t:
    "traverse ?d0 50 5000 nop increment 4 = Some (Inr (d', buf', i_buf'))"
    "traverse [] 50 5000 (log_call Highest) (log_call Lowest) 4 = Some (Inr (tr, buf', i_buf'))"
    "length d' = length ?d0"
    "\<forall>j < length ?d0. d' ! j = ?d0 ! j + of_nat (count_list tr (Lowest (of_nat j)))"
    by blast
  have cnt: "d' ! j = of_nat (count_list tr (Lowest (of_nat j)))" if "j < 50" for j
    using t(4) that by simp
  have le: "(0::cint) \<le>s 147" "(147::cint) \<le>s 5000" by (simp_all add: word_sle_eq)
  have "traverse ?d0 50 5000 nop increment 4
      = main_loop ?d0 [1, 1, 2, 3] 0 0 50 5000 nop increment 4"
    by (simp add: traverse_def seeds_50_4)
  also have "\<dots> = main_loop ?d1 ?b1 3 147 50 5000 nop increment 4"
    by (simp add: main_loop_split [OF le] first_147)
  finally have run: "main_loop ?d1 ?b1 3 147 50 5000 nop increment 4
      = Some (Inr (d', buf', i_buf'))"
    using t(1) by simp
  have ok: "ring_ok 4 ?b1 3" by (simp add: ring_ok_def word_sle_eq word_sless_alt)
  have bd: "\<forall>v \<in> set ?b1. v < 50" by simp
  have l1: "length ?d1 = unat (50::u64)" by simp
  have l0: "(50::u64) \<noteq> 0" by simp
  from main_loop_increment [OF l0 ok bd le(2) l1 h(6)] run
  obtain tr2 where r:
    "length (filter is_lowest tr2) = nat (sint (5000::cint) - sint (147::cint))"
    "\<forall>j < length ?d1. d' ! j = ?d1 ! j + of_nat (count_list tr2 (Lowest (of_nat j)))"
    by auto
  have small: "list_all (\<lambda>x. 1 \<le> unat x \<and> unat x \<le> 6) ?d1" by simp
  have pos: "0 <s d' ! j" if "j < 50" for j
  proof -
    have "count_list tr2 (Lowest (of_nat j)) \<le> 4853"
      using count_list_lowest_le [of tr2 "of_nat j"] r(1) by simp
    moreover have "1 \<le> unat (?d1 ! j) \<and> unat (?d1 ! j) \<le> 6"
      using small that unfolding list_all_length by simp
    ultimately have "0 <s ?d1 ! j + of_nat (count_list tr2 (Lowest (of_nat j)))"
      by (intro counter_positive) simp_all
    then show ?thesis using r(2) that by simp
  qed
  have sel: "Lowest (of_nat j) \<in> set tr" if "j < 50" for j
  proof -
    have "d' ! j \<noteq> 0" using pos [OF that] by (auto simp: word_sless_alt)
    then have "count_list tr (Lowest (of_nat j)) \<noteq> 0"
      unfolding cnt [OF that] by (rule contrapos_nn) simp
    then show ?thesis by (simp add: count_list_0_iff)
  qed
  show ?thesis
  proof (intro exI conjI)
    show "fibo_lookahead_foreach ?d0 50 5000 nop increment 4 = Some (Inr d')"
      using t(1) by (simp add: fibo_lookahead_foreach_def)
    show "fibo_lookahead_foreach ?d0 50 5000 prefetch increment 4 = Some (Inr d')"
      using t(1) by (simp add: fibo_lookahead_foreach_def prefetch_nop)
    show "length d' = 50" using t(3) by simp
    show "list_all (\<lambda>x. 0 <s x) d'"
      unfolding list_all_length using pos t(3) by simp
    show "fibo_lookahead_foreach [] 50 5000 (log_call Highest) (log_call Lowest) 4 = Some (Inr tr)"
      using t(2) by (simp add: fibo_lookahead_foreach_def)
    show "list_all (\<lambda>j. Lowest (of_nat j) \<in> set tr) [0..<50]"
      unfolding list_all_iff using sel by simp
  qed
qed

section \<open>Buffer lengths above 1\<close>

text \<open>
  For every buffer length above 1 the seeds are below the buffer length, and so is every
  index handed to \<open>op_lowest\<close> and \<open>op_highest\<close>, for every ring size and iteration count,
  also in a run that faults. The seed 1 stored without reduction is out of range for
  buffer length 1 only.
\<close>

lemma seeds_below_len:
  assumes "1 < len"
  shows "\<exists>buf. seed_loop (replicate (nat (sint n)) 0) 0 1 0 len n = Some (Inr buf)
           \<and> (\<forall>v \<in> set buf. v < len)"
proof (cases "0 <s n")
  case True
  have "len \<noteq> 0" using assms by auto
  from seeded_ring [OF this True] assms show ?thesis by blast
next
  case False
  then have "nat (sint n) = 0" by (simp add: word_sless_alt)
  then show ?thesis using False by (simp add: seed_loop.simps [of _ 0])
qed

lemma calls_below_len:
  assumes "1 < len"
  shows "\<exists>r. traverse [] len iters (log_call Highest) (log_call Lowest) n = Some r
    \<and> (\<forall>c \<in> set (case r of Inl (e, tr) \<Rightarrow> tr | Inr (tr, buf, i_buf) \<Rightarrow> tr).
          call_index c < len)"
proof -
  define R where "R = (\<lambda>d t :: call list. d = t \<and> (\<forall>c \<in> set d. call_index c < len))"
  have len0: "len \<noteq> 0" using assms by auto
  obtain buf where b: "seed_loop (replicate (nat (sint n)) 0) 0 1 0 len n = Some (Inr buf)"
    "\<forall>v \<in> set buf. v < len"
    using seeds_below_len [OF assms] by blast
  have rl: "rel_sum (=) R (log_call c d len x) (log_call c t len x)"
    if "R d t" "x < len" "c = Lowest \<or> c = Highest" for c d t x
    using that by (auto simp: R_def log_call_def)
  have R0: "R [] []" by (simp add: R_def)
  let ?run = "main_loop [] buf 0 0 len iters (log_call Highest) (log_call Lowest) n"
  have rel: "rel_option (rel_sum (rel_prod (=) R)
            (rel_prod R (\<lambda>s s'. s = s' \<and> (\<forall>v \<in> set (fst s). v < len)))) ?run ?run"
    using len0 rl R0 b(2)
    by (intro main_loop_rel [where R = R and ol = "log_call Lowest" and ol' = "log_call Lowest"
          and oh = "log_call Highest" and oh' = "log_call Highest"]) auto
  obtain r where r: "?run = Some r"
    using main_loop_total [OF len0, of "[]" buf 0 0 iters "log_call Highest" "log_call Lowest" n]
    by blast
  have "\<forall>c \<in> set (case r of Inl (e, tr) \<Rightarrow> tr | Inr (tr, buf, i_buf) \<Rightarrow> tr).
          call_index c < len"
    using rel unfolding r by (cases r) (auto simp: R_def)
  then show ?thesis using b(1) r by (simp add: traverse_def)
qed

text \<open>
  With buffer length 0 the reduction after the first seed never ends, and the traversal
  does not return.
\<close>

lemma traverse_len_0: "0 <s n \<Longrightarrow> traverse data 0 iters op_highest op_lowest n = None"
proof -
  assume n: "0 <s n"
  then have "0 < sint n" by (simp add: word_sless_alt)
  then have "array_set (replicate (nat (sint n)) (0::u64)) 0 1
      = Inr ((replicate (nat (sint n)) 0)[0 := 1])"
    by (simp add: array_set_def word_sle_eq)
  then have "seed_loop (replicate (nat (sint n)) 0) 0 1 0 0 n = None"
    using n by (simp add: seed_loop.simps [of _ 0] reduce_zero)
  then show ?thesis by (simp add: traverse_def)
qed

section \<open>One iteration of a run\<close>

text \<open>
  The traversal of \<open>k\<close> iterations ends with the state that iteration \<open>k\<close> of a longer run
  starts from; the traversal of \<open>k + 1\<close> iterations ends with the state after that
  iteration, and the longer run goes on from there.
\<close>

lemma main_loop_log_bounded:
  assumes len: "len \<noteq> 0" and ok: "ring_ok n buf i_buf" and le: "i \<le>s iters"
    and bd: "\<forall>v \<in> set buf. v < len"
  shows "\<exists>tr' buf' i_buf'.
     main_loop tr buf i_buf i len iters (log_call Highest) (log_call Lowest) n
       = Some (Inr (tr', buf', i_buf'))
     \<and> ring_ok n buf' i_buf' \<and> (\<forall>v \<in> set buf'. v < len)"
proof -
  obtain tr' buf' i_buf' where r:
    "main_loop tr buf i_buf i len iters (log_call Highest) (log_call Lowest) n
       = Some (Inr (tr', buf', i_buf'))" "ring_ok n buf' i_buf'"
    using main_loop_log [OF len ok le, of tr] by blast
  define R where "R = (\<lambda>(d :: call list) (t :: call list). d = t)"
  have rl: "rel_sum (=) R (log_call c d len x) (log_call c t len x)" if "R d t" for c d t x
    using that by (simp add: R_def log_call_def)
  have "rel_option (rel_sum (rel_prod (=) R)
            (rel_prod R (\<lambda>s s'. s = s' \<and> (\<forall>v \<in> set (fst s). v < len))))
       (main_loop tr buf i_buf i len iters (log_call Highest) (log_call Lowest) n)
       (main_loop tr buf i_buf i len iters (log_call Highest) (log_call Lowest) n)"
    using len rl bd
    by (intro main_loop_rel [where R = R and ol = "log_call Lowest" and ol' = "log_call Lowest"
          and oh = "log_call Highest" and oh' = "log_call Highest"]) (auto simp: R_def)
  then have "\<forall>v \<in> set buf'. v < len" unfolding r(1) by simp
  then show ?thesis using r by blast
qed

lemma main_loop_one:
  assumes "k <s iters"
  shows "main_loop d buf i_buf k len (k + 1) op_highest op_lowest n =
    (case iteration d buf i_buf len op_highest op_lowest n of
       None \<Rightarrow> None
     | Some (Inl f) \<Rightarrow> Some (Inl f)
     | Some (Inr s) \<Rightarrow> Some (Inr s))"
proof -
  have s: "sint (k + 1) = sint k + 1" using assms by (rule sint_succ_less)
  have lt: "k <s k + 1" using s by (simp add: word_sless_alt)
  have nlt: "\<not> k + 1 <s k + 1" by (simp add: word_sless_alt)
  show ?thesis
    using lt nlt
    by (simp add: main_loop.simps [of d buf i_buf k] main_loop.simps [of _ _ _ "k + 1" len "k + 1"]
        split: option.splits sum.splits)
qed

lemma traverse_step:
  assumes len0: "len \<noteq> 0" and n: "0 <s n" "sint n \<le> 2 ^ 30"
    and k: "0 \<le>s k" "k <s iters"
  shows "\<exists>tr buf i_buf.
      traverse [] len k (log_call Highest) (log_call Lowest) n = Some (Inr (tr, buf, i_buf))
    \<and> ring_ok n buf i_buf \<and> (1 < len \<longrightarrow> (\<forall>v \<in> set buf. v < len))
    \<and> traverse [] len (k + 1) (log_call Highest) (log_call Lowest) n
        = iteration tr buf i_buf len (log_call Highest) (log_call Lowest) n
    \<and> traverse [] len iters (log_call Highest) (log_call Lowest) n
        = (case iteration tr buf i_buf len (log_call Highest) (log_call Lowest) n of
             None \<Rightarrow> None
           | Some (Inl f) \<Rightarrow> Some (Inl f)
           | Some (Inr (tr', buf', i_buf')) \<Rightarrow>
               main_loop tr' buf' i_buf' (k + 1) len iters (log_call Highest) (log_call Lowest) n)"
proof -
  let ?H = "log_call Highest" and ?L = "log_call Lowest"
  obtain buf0 where b: "seed_loop (replicate (nat (sint n)) 0) 0 1 0 len n = Some (Inr buf0)"
    "length buf0 = nat (sint n)" "1 < len \<longrightarrow> (\<forall>v \<in> set buf0. v < len)"
    using seeded_ring [OF len0 n(1)] by blast
  have ok0: "ring_ok n buf0 0"
    using n b(2) by (simp add: ring_ok_def word_sle_eq word_sless_alt)
  have tr: "traverse [] len m ?H ?L n = main_loop [] buf0 0 0 len m ?H ?L n" for m
    using b(1) by (simp add: traverse_def)
  obtain tr buf i_buf where r: "main_loop [] buf0 0 0 len k ?H ?L n = Some (Inr (tr, buf, i_buf))"
    "ring_ok n buf i_buf"
    using main_loop_log [OF len0 ok0 k(1), of "[]"] by blast
  have bd: "\<forall>v \<in> set buf. v < len" if "1 < len"
    using main_loop_log_bounded [OF len0 ok0 k(1), of "[]"] b(3) that r(1) by auto
  have s: "sint (k + 1) = sint k + 1" using k(2) by (rule sint_succ_less)
  have le1: "k \<le>s k + 1" using s by (simp add: word_sle_eq)
  have le2: "k + 1 \<le>s iters" using s k(2) by (simp add: word_sle_eq word_sless_alt)
  have le3: "0 \<le>s k + 1" using s k(1) by (simp add: word_sle_eq)
  have one: "main_loop [] buf0 0 0 len (k + 1) ?H ?L n = iteration tr buf i_buf len ?H ?L n"
    using r(1) by (simp add: main_loop_split [OF k(1) le1] main_loop_one [OF k(2)]
        split: option.splits sum.splits)
  have run: "main_loop [] buf0 0 0 len iters ?H ?L n
      = (case iteration tr buf i_buf len ?H ?L n of
             None \<Rightarrow> None
           | Some (Inl f) \<Rightarrow> Some (Inl f)
           | Some (Inr (tr', buf', i_buf')) \<Rightarrow> main_loop tr' buf' i_buf' (k + 1) len iters ?H ?L n)"
    by (simp add: main_loop_split [OF le3 le2] one)
  show ?thesis
    using r bd one run unfolding tr by blast
qed








section \<open>Claims about one iteration\<close>




text \<open>
  Claim C9, as the code has it. Let \<open>len > 1\<close> and \<open>0 < n \<le> 2^30\<close>, and take iteration \<open>k\<close> of a
  run of \<open>iters\<close> iterations, \<open>0 \<le> k < iters\<close>. The run of \<open>k\<close> iterations returns, with the log
  \<open>tr\<close>, the ring \<open>buf\<close> and the ring position \<open>i_buf\<close>: this is the state that iteration \<open>k\<close>
  starts from. In it every ring slot is below \<open>len\<close>. The two reads of the iteration succeed,
  with values \<open>a\<close> and \<open>b\<close>; their sum is below \<open>2 * len\<close>, as a sum of numbers and as the 64-bit
  sum that the code computes. The reduction loop returns for it after at most one
  subtraction: its result is \<open>a + b - len\<close> if \<open>len \<le> a + b\<close> and \<open>a + b\<close> if not, and this is
  \<open>(a + b) mod len\<close>. That result is the value that the iteration stores at the ring position
  and hands to \<open>op_highest\<close>: with it the iteration ends in the state that the run of \<open>k + 1\<close>
  iterations returns, from which the run of \<open>iters\<close> iterations goes on.
\<close>

theorem C9_reduction_one_subtraction:
  assumes len: "1 < len" and n: "0 <s n" "sint n \<le> 2 ^ 30"
    and k: "0 \<le>s k" "k <s iters"
  shows "\<exists>tr buf i_buf a b.
      traverse [] len k (log_call Highest) (log_call Lowest) n = Some (Inr (tr, buf, i_buf))
    \<and> (\<forall>v \<in> set buf. v < len)
    \<and> array_get buf (dec_ring i_buf n) = Inr a
    \<and> array_get buf (dec_ring (dec_ring i_buf n) n) = Inr b
    \<and> unat a + unat b < 2 * unat len
    \<and> unat (a + b) < 2 * unat len
    \<and> reduce (a + b) len = Some (if len \<le> a + b then a + b - len else a + b)
    \<and> reduce (a + b) len = Some ((a + b) mod len)
    \<and> traverse [] len (k + 1) (log_call Highest) (log_call Lowest) n
        = Some (Inr (tr @ [Lowest (buf ! nat (sint i_buf)),
                           Highest (if len \<le> a + b then a + b - len else a + b)],
                     buf[nat (sint i_buf) := (if len \<le> a + b then a + b - len else a + b)],
                     inc_ring i_buf n))
    \<and> traverse [] len iters (log_call Highest) (log_call Lowest) n
        = main_loop (tr @ [Lowest (buf ! nat (sint i_buf)),
                           Highest (if len \<le> a + b then a + b - len else a + b)])
            (buf[nat (sint i_buf) := (if len \<le> a + b then a + b - len else a + b)])
            (inc_ring i_buf n) (k + 1) len iters (log_call Highest) (log_call Lowest) n"
proof -
  let ?H = "log_call Highest" and ?L = "log_call Lowest"
  have len0: "len \<noteq> 0" using len by auto
  from traverse_step [OF len0 n k]
  obtain tr buf i_buf where t:
    "traverse [] len k ?H ?L n = Some (Inr (tr, buf, i_buf))" "ring_ok n buf i_buf"
    "1 < len \<longrightarrow> (\<forall>v \<in> set buf. v < len)"
    "traverse [] len (k + 1) ?H ?L n = iteration tr buf i_buf len ?H ?L n"
    "traverse [] len iters ?H ?L n
        = (case iteration tr buf i_buf len ?H ?L n of
             None \<Rightarrow> None
           | Some (Inl f) \<Rightarrow> Some (Inl f)
           | Some (Inr (tr', buf', i_buf')) \<Rightarrow> main_loop tr' buf' i_buf' (k + 1) len iters ?H ?L n)"
    by blast
  let ?a = "buf ! nat (sint (dec_ring i_buf n))"
  let ?b = "buf ! nat (sint (dec_ring (dec_ring i_buf n) n))"
  let ?v = "if len \<le> ?a + ?b then ?a + ?b - len else ?a + ?b"
  have bd: "\<forall>v \<in> set buf. v < len" using t(3) len by blast
  note rd = ring_ok_reads [OF t(2)]
  have a: "?a < len" using bd array_get_Inr(3) [OF rd(2)] by blast
  have b: "?b < len" using bd array_get_Inr(3) [OF rd(3)] by blast
  note once = reduce_once [OF a b]
  have it: "iteration tr buf i_buf len ?H ?L n
      = Some (Inr (tr @ [Lowest (buf ! nat (sint i_buf)), Highest ?v],
                   buf[nat (sint i_buf) := ?v], inc_ring i_buf n))"
    unfolding iteration_log [OF len0 t(2)] once(4) by (rule refl)
  show ?thesis
  proof (intro exI conjI)
    show "traverse [] len k ?H ?L n = Some (Inr (tr, buf, i_buf))" by (rule t(1))
    show "\<forall>v \<in> set buf. v < len" by (rule bd)
    show "array_get buf (dec_ring i_buf n) = Inr ?a" by (rule rd(2))
    show "array_get buf (dec_ring (dec_ring i_buf n) n) = Inr ?b" by (rule rd(3))
    show "unat ?a + unat ?b < 2 * unat len" by (rule once(1))
    show "unat (?a + ?b) < 2 * unat len" by (rule once(2))
    show "reduce (?a + ?b) len = Some ?v" by (rule once(3))
    show "reduce (?a + ?b) len = Some ((?a + ?b) mod len)" by (rule reduce_mod [OF len0])
    show "traverse [] len (k + 1) ?H ?L n
        = Some (Inr (tr @ [Lowest (buf ! nat (sint i_buf)), Highest ?v],
                     buf[nat (sint i_buf) := ?v], inc_ring i_buf n))"
      unfolding t(4) by (rule it)
    show "traverse [] len iters ?H ?L n
        = main_loop (tr @ [Lowest (buf ! nat (sint i_buf)), Highest ?v])
            (buf[nat (sint i_buf) := ?v]) (inc_ring i_buf n) (k + 1) len iters ?H ?L n"
      unfolding t(5) it by simp
  qed
qed

text \<open>
  Claim C9, witness: \<open>len = 10\<close>, \<open>n = 3\<close>, iteration 3 of a run of 5 iterations.
\<close>

theorem C9_reduction_one_subtraction_witness:
  "(1::u64) < 10 \<and> 0 <s (3::cint) \<and> sint (3::cint) \<le> 2 ^ 30 \<and> 0 \<le>s (3::cint) \<and> (3::cint) <s 5
   \<and> (\<exists>tr buf i_buf a b.
      traverse [] 10 3 (log_call Highest) (log_call Lowest) 3 = Some (Inr (tr, buf, i_buf))
    \<and> (\<forall>v \<in> set buf. v < 10)
    \<and> array_get buf (dec_ring i_buf 3) = Inr a
    \<and> array_get buf (dec_ring (dec_ring i_buf 3) 3) = Inr b
    \<and> unat a + unat b < 2 * unat (10::u64)
    \<and> unat (a + b) < 2 * unat (10::u64)
    \<and> reduce (a + b) 10 = Some (if 10 \<le> a + b then a + b - 10 else a + b)
    \<and> reduce (a + b) 10 = Some ((a + b) mod 10)
    \<and> traverse [] 10 (3 + 1) (log_call Highest) (log_call Lowest) 3
        = Some (Inr (tr @ [Lowest (buf ! nat (sint i_buf)),
                           Highest (if 10 \<le> a + b then a + b - 10 else a + b)],
                     buf[nat (sint i_buf) := (if 10 \<le> a + b then a + b - 10 else a + b)],
                     inc_ring i_buf 3))
    \<and> traverse [] 10 5 (log_call Highest) (log_call Lowest) 3
        = main_loop (tr @ [Lowest (buf ! nat (sint i_buf)),
                           Highest (if 10 \<le> a + b then a + b - 10 else a + b)])
            (buf[nat (sint i_buf) := (if 10 \<le> a + b then a + b - 10 else a + b)])
            (inc_ring i_buf 3) (3 + 1) 10 5 (log_call Highest) (log_call Lowest) 3)"
proof -
  have h: "(1::u64) < 10" "0 <s (3::cint)" "sint (3::cint) \<le> 2 ^ 30" "0 \<le>s (3::cint)"
    "(3::cint) <s 5"
    by (simp_all add: word_sle_eq word_sless_alt)
  show ?thesis by (intro conjI h C9_reduction_one_subtraction [OF h])
qed

text \<open>
  Claim C9, counterexample to the claim for every \<open>n > 0\<close>: with \<open>len = 3\<close> and \<open>n = 2^30 + 1\<close>,
  in a ring whose slots all hold 1, below \<open>len\<close>, the iteration at ring position 0 calls
  \<open>op_lowest\<close> and then faults on its second read, at the position
  \<open>dec_ring (dec_ring 0 n) n\<close>, where \<open>2^30 + (2^30 + 1) - 1 = 2^31\<close> is not an \<^verbatim>\<open>int\<close>: no sum is
  formed and the reduction loop is not entered. The first iteration of the traversal with
  this \<open>len\<close> and this \<open>n\<close> faults in the same way.
\<close>

theorem C9_reduction_one_subtraction_counterexample:
  "(1::u64) < 3 \<and> 0 <s (1073741825::cint)
   \<and> list_all (\<lambda>v. v < 3) (replicate 1073741825 (1::u64))
   \<and> iteration [] (replicate 1073741825 1) 0 3 (log_call Highest) (log_call Lowest) 1073741825
       = Some (Inl (OutOfBounds, [Lowest 1]))
   \<and> traverse [] 3 1 (log_call Highest) (log_call Lowest) 1073741825
       = Some (Inl (OutOfBounds, [Lowest 1]))"
proof -
  have n: "0 <s (1073741825::cint)" by (simp add: word_sless_alt)
  obtain buf where b: "seed_loop (replicate (nat (sint (1073741825::cint))) 0) 0 1 0 3 1073741825 = Some (Inr buf)"
    "length buf = nat (sint (1073741825::cint))" "buf ! 0 = 1"
    using seeded_ring [OF _ n, of 3] by auto
  have l: "length buf = 1073741825" using b(2) by simp
  have "iteration [] buf 0 3 (log_call Highest) (log_call Lowest) 1073741825
      = Some (Inl (OutOfBounds, [Lowest 1]))"
    using l b(3)
    by (simp add: iteration_def array_get_def dec_ring_def log_call_def word_sle_eq)
  then have "main_loop [] buf 0 0 3 1 (log_call Highest) (log_call Lowest) 1073741825
      = Some (Inl (OutOfBounds, [Lowest 1]))"
    by (simp add: main_loop.simps [of _ _ _ 0] word_sless_alt)
  then have t: "traverse [] 3 1 (log_call Highest) (log_call Lowest) 1073741825
       = Some (Inl (OutOfBounds, [Lowest 1]))"
    using b(1) by (simp add: traverse_def)
  have a: "list_all (\<lambda>v. v < 3) (replicate 1073741825 (1::u64))"
    by (simp add: list_all_iff)
  have i: "iteration [] (replicate 1073741825 1) 0 3 (log_call Highest) (log_call Lowest) 1073741825
       = Some (Inl (OutOfBounds, [Lowest 1]))"
    by (simp add: iteration_def array_get_def dec_ring_def log_call_def word_sle_eq)
  have "(1::u64) < 3" by simp
  then show ?thesis using n a i t by (intro conjI)
qed

end
